theory Spec2Isabelle
  imports Complex_Main
begin

section \<open>Strings of the host language\<close>

text \<open>
  A string of the program is a sequence of UTF-16 code units; a code unit is modelled by
  its number. \<open>js\<close> turns an ASCII literal of this theory into such a string.
  The currency signs of the program are single code units:
  dollar 36, pound 163, naira 8358, euro 8364.
\<close>

type_synonym jschar = nat
type_synonym jsstr = "nat list"

definition js :: "string \<Rightarrow> jsstr" where
  "js s = map of_char s"

definition DOLLAR :: jschar where "DOLLAR = 36"
definition POUND :: jschar where "POUND = 163"
definition NAIRA :: jschar where "NAIRA = 8358"
definition EURO :: jschar where "EURO = 8364"

fun startsWith :: "jsstr \<Rightarrow> jsstr \<Rightarrow> bool" where
  "startsWith s [] = True"
| "startsWith [] (p # ps) = False"
| "startsWith (x # xs) (p # ps) = (x = p \<and> startsWith xs ps)"

text \<open>\<open>s.includes(p)\<close>: \<open>p\<close> occurs in \<open>s\<close> as a contiguous run; the empty
  string occurs in every string.\<close>

fun includesStr :: "jsstr \<Rightarrow> jsstr \<Rightarrow> bool" where
  "includesStr [] p = (p = [])"
| "includesStr (x # xs) p = (startsWith (x # xs) p \<or> includesStr xs p)"

definition isDigit :: "jschar \<Rightarrow> bool" where
  "isDigit c = (48 \<le> c \<and> c \<le> 57)"

definition isUpperAscii :: "jschar \<Rightarrow> bool" where
  "isUpperAscii c = (65 \<le> c \<and> c \<le> 90)"

definition isLowerAscii :: "jschar \<Rightarrow> bool" where
  "isLowerAscii c = (97 \<le> c \<and> c \<le> 122)"

definition isAsciiLetter :: "jschar \<Rightarrow> bool" where
  "isAsciiLetter c = (isUpperAscii c \<or> isLowerAscii c)"

text \<open>The class \<open>\s\<close> of the pattern language, which is also what \<open>trim\<close> strips:
  white space and line terminators.\<close>

definition isSpace :: "jschar \<Rightarrow> bool" where
  "isSpace c = (c \<in> set [9, 10, 11, 12, 13, 32, 160, 5760, 8232, 8233, 8239, 8287, 12288, 65279]
                \<or> (8192 \<le> c \<and> c \<le> 8202))"

text \<open>The word characters that decide \<open>\b\<close> in a pattern without the unicode flag.\<close>

definition isWordChar :: "jschar \<Rightarrow> bool" where
  "isWordChar c = (isAsciiLetter c \<or> isDigit c \<or> c = 95)"

definition asciiLower :: "jschar \<Rightarrow> jschar" where
  "asciiLower c = (if isUpperAscii c then c + 32 else c)"

definition asciiUpper :: "jschar \<Rightarrow> jschar" where
  "asciiUpper c = (if isLowerAscii c then c - 32 else c)"

definition trim :: "jsstr \<Rightarrow> jsstr" where
  "trim s = rev (dropWhile isSpace (rev (dropWhile isSpace s)))"

text \<open>\<open>s.split("\n")[0]\<close>: the text before the first line feed (the whole string when
  there is none; the empty string for the empty string).\<close>

definition firstLine :: "jsstr \<Rightarrow> jsstr" where
  "firstLine s = takeWhile (\<lambda>c. c \<noteq> 10) s"

text \<open>\<open>s.replace(",", ".")\<close> with string arguments replaces the first comma only.\<close>

fun replaceFirstComma :: "jsstr \<Rightarrow> jsstr" where
  "replaceFirstComma [] = []"
| "replaceFirstComma (x # xs) = (if x = 44 then 46 # xs else x # replaceFirstComma xs)"

section \<open>Patterns and the backtracking matcher\<close>

text \<open>
  The five patterns of the program use single code units and classes, sequence, ordered
  alternation, the greedy optional \<open>?\<close>, greedy repetition of a class
  (\<open>*\<close>, \<open>+\<close>, \<open>{m,n}\<close>), capture groups and \<open>\b\<close>. A match state is the code unit
  just before the current position (none at the start of the text), the text still to be
  read, and the captures so far. \<open>ms r st\<close> lists the states in which a match of \<open>r\<close>
  started at \<open>st\<close> can end, in the order in which backtracking tries them; the head of
  the list is the match the engine reports.
\<close>

datatype regex =
    Atom "jschar \<Rightarrow> bool"
  | Eps
  | Seq regex regex
  | Alt regex regex
  | Opt regex
  | Rep "jschar \<Rightarrow> bool" nat "nat option"
  | Grp nat regex
  | WordB

type_synonym captures = "nat \<Rightarrow> jsstr option"
type_synonym mstate = "jschar option \<times> jsstr \<times> captures"

definition ms_rep :: "(jschar \<Rightarrow> bool) \<Rightarrow> nat \<Rightarrow> nat option \<Rightarrow> mstate \<Rightarrow> mstate list" where
  "ms_rep P lo hi st =
     (case st of (p, s, c) \<Rightarrow>
        let run = length (takeWhile P s);
            n = (case hi of None \<Rightarrow> run | Some h \<Rightarrow> min h run)
        in map (\<lambda>k. (if k = 0 then p else Some (s ! (k - 1)), drop k s, c)) (rev [lo..<Suc n]))"

definition wordBoundary :: "jschar option \<Rightarrow> jsstr \<Rightarrow> bool" where
  "wordBoundary p s =
     ((case p of None \<Rightarrow> False | Some x \<Rightarrow> isWordChar x)
        \<noteq> (case s of [] \<Rightarrow> False | x # _ \<Rightarrow> isWordChar x))"

fun ms :: "regex \<Rightarrow> mstate \<Rightarrow> mstate list" where
  "ms (Atom P) (p, s, c) = (case s of [] \<Rightarrow> [] | x # xs \<Rightarrow> if P x then [(Some x, xs, c)] else [])"
| "ms Eps st = [st]"
| "ms (Seq a b) st = concat (map (ms b) (ms a st))"
| "ms (Alt a b) st = ms a st @ ms b st"
| "ms (Opt a) (p, s, c) =
     filter (\<lambda>st'. length (fst (snd st')) < length s) (ms a (p, s, c)) @ [(p, s, c)]"
| "ms (Rep P lo hi) st = ms_rep P lo hi st"
| "ms (Grp n a) (p, s, c) =
     map (\<lambda>st'. (fst st', fst (snd st'),
                 (snd (snd st'))(n \<mapsto> take (length s - length (fst (snd st'))) s)))
         (ms a (p, s, c))"
| "ms WordB (p, s, c) = (if wordBoundary p s then [(p, s, c)] else [])"

text \<open>The result of \<open>text.match(pattern)\<close> for a pattern without the global flag: absent,
  or the index of the leftmost match, the matched text and the captures.\<close>

record rmatch =
  mindex :: nat
  matched :: jsstr
  groups :: captures

fun search_from :: "regex \<Rightarrow> jschar option \<Rightarrow> jsstr \<Rightarrow> nat \<Rightarrow> rmatch option" where
  "search_from r p [] i =
     (case ms r (p, [], Map.empty) of
        [] \<Rightarrow> None
      | st # _ \<Rightarrow> Some \<lparr>mindex = i, matched = [], groups = snd (snd st)\<rparr>)"
| "search_from r p (x # xs) i =
     (case ms r (p, x # xs, Map.empty) of
        [] \<Rightarrow> search_from r (Some x) xs (Suc i)
      | st # _ \<Rightarrow> Some \<lparr>mindex = i,
                        matched = take (length (x # xs) - length (fst (snd st))) (x # xs),
                        groups = snd (snd st)\<rparr>)"

definition match :: "jsstr \<Rightarrow> regex \<Rightarrow> rmatch option" where
  "match s r = search_from r None s 0"

subsection \<open>Building patterns\<close>

text \<open>
  A literal code unit of a pattern with the ignore-case flag matches the units with the
  same canonical form. The patterns here contain ASCII letters, ASCII punctuation and the
  caseless signs for euro, pound and naira only; a unit outside ASCII never canonicalises
  to an ASCII unit and none canonicalises to one of the three signs, so comparing the
  ASCII upper-case forms decides the same matches.
\<close>

definition chr_eq :: "jschar \<Rightarrow> jschar \<Rightarrow> bool" where
  "chr_eq x c = (c = x)"

definition chr_ci :: "jschar \<Rightarrow> jschar \<Rightarrow> bool" where
  "chr_ci x c = (asciiUpper c = asciiUpper x)"

primrec lit :: "jsstr \<Rightarrow> regex" where
  "lit [] = Eps"
| "lit (x # xs) = Seq (Atom (chr_eq x)) (lit xs)"

primrec liti :: "jsstr \<Rightarrow> regex" where
  "liti [] = Eps"
| "liti (x # xs) = Seq (Atom (chr_ci x)) (liti xs)"

fun alts :: "regex \<Rightarrow> regex list \<Rightarrow> regex" where
  "alts r [] = r"
| "alts r (x # xs) = Alt r (alts x xs)"

primrec seqs :: "regex list \<Rightarrow> regex" where
  "seqs [] = Eps"
| "seqs (r # rs) = Seq r (seqs rs)"

subsection \<open>The patterns of subscriptionService.ts\<close>

text \<open>\<^verbatim>\<open>/(?:USD|\$|EUR|E|NGN|N)?\s?([0-9]+(?:[.,][0-9]{1,2})?)\s?(?:USD|EUR|NGN|N)?/i\<close>
  where E is the euro sign and N the naira sign.\<close>

definition moneyRegex :: regex where
  "moneyRegex = seqs
     [Opt (alts (liti (js ''USD'')) [lit [DOLLAR], liti (js ''EUR''), lit [EURO],
                                      liti (js ''NGN''), lit [NAIRA]]),
      Opt (Atom isSpace),
      Grp 1 (Seq (Rep isDigit 1 None)
                 (Opt (Seq (Atom (\<lambda>c. c = 46 \<or> c = 44)) (Rep isDigit 1 (Some 2))))),
      Opt (Atom isSpace),
      Opt (alts (liti (js ''USD'')) [liti (js ''EUR''), liti (js ''NGN''), lit [NAIRA]])]"

text \<open>\<^verbatim>\<open>/\b(20\d{2}[-\/]\d{1,2}[-\/]\d{1,2})\b/\<close>\<close>

definition isDateSep :: "jschar \<Rightarrow> bool" where
  "isDateSep c = (c = 45 \<or> c = 47)"

definition isoRegex :: regex where
  "isoRegex = seqs
     [WordB,
      Grp 1 (seqs [lit (js ''20''), Rep isDigit 2 (Some 2), Atom isDateSep,
                   Rep isDigit 1 (Some 2), Atom isDateSep, Rep isDigit 1 (Some 2)]),
      WordB]"

text \<open>\<^verbatim>\<open>/\b(?:Jan|Feb|Mar|Apr|May|Jun|Jul|Aug|Sep|Sept|Oct|Nov|Dec)[a-z]*\s+\d{1,2},\s*\d{4}\b/i\<close>\<close>

definition longDateRegex :: regex where
  "longDateRegex = seqs
     [WordB,
      alts (liti (js ''Jan''))
        [liti (js ''Feb''), liti (js ''Mar''), liti (js ''Apr''), liti (js ''May''),
         liti (js ''Jun''), liti (js ''Jul''), liti (js ''Aug''), liti (js ''Sep''),
         liti (js ''Sept''), liti (js ''Oct''), liti (js ''Nov''), liti (js ''Dec'')],
      Rep isAsciiLetter 0 None,
      Rep isSpace 1 None,
      Rep isDigit 1 (Some 2),
      lit (js '',''),
      Rep isSpace 0 None,
      Rep isDigit 4 (Some 4),
      WordB]"

text \<open>\<^verbatim>\<open>/\$|N|E|P|\d{1,5}\s?(usd|ngn|eur|gbp)/i\<close> where N, E, P are the naira, euro and
  pound signs.\<close>

definition currencyCodes :: regex where
  "currencyCodes = alts (liti (js ''usd'')) [liti (js ''ngn''), liti (js ''eur''), liti (js ''gbp'')]"

definition filterRegex :: regex where
  "filterRegex = alts (lit [DOLLAR])
     [lit [NAIRA], lit [EURO], lit [POUND],
      seqs [Rep isDigit 1 (Some 5), Opt (Atom isSpace), Grp 1 currencyCodes]]"

text \<open>\<^verbatim>\<open>/(plan|subscription|membership|premium|pro|plus|monthly|annual)[\s:]*([A-Za-z0-9 -]+)/i\<close>\<close>

definition isProductChar :: "jschar \<Rightarrow> bool" where
  "isProductChar c = (isAsciiLetter c \<or> isDigit c \<or> c = 32 \<or> c = 45)"

definition productRegex :: regex where
  "productRegex = seqs
     [Grp 1 (alts (liti (js ''plan''))
               [liti (js ''subscription''), liti (js ''membership''), liti (js ''premium''),
                liti (js ''pro''), liti (js ''plus''), liti (js ''monthly''),
                liti (js ''annual'')]),
      Rep (\<lambda>c. isSpace c \<or> c = 58) 0 None,
      Grp 2 (Rep isProductChar 1 None)]"

section \<open>What the program takes from its environment\<close>

text \<open>
  Four things the program uses are not in its source and are parameters of the model:
  \<^item> \<open>subs\<close>, the brand names loaded from \<open>../data/subs.json\<close>;
  \<^item> \<open>lowerUnicode\<close>, the result of \<open>toLowerCase\<close> on a string that has a code unit
    outside ASCII (the case tables of Unicode; on an ASCII string \<open>toLowerCase\<close> is
    determined and is modelled below);
  \<^item> \<open>parseDateImpl\<close>, the time value (or none, for NaN) that the engine's \<open>Date.parse\<close>
    gives a string for which the language standard leaves the result to the
    implementation;
  \<^item> \<open>tzaUTC\<close> and \<open>tzaLocal\<close>, the offset in milliseconds of the host's local time zone
    at a UTC instant and at a local wall-clock time.
\<close>

record host =
  subs :: "jsstr list"
  lowerUnicode :: "jsstr \<Rightarrow> jsstr"
  parseDateImpl :: "jsstr \<Rightarrow> int option"
  tzaUTC :: "int \<Rightarrow> int"
  tzaLocal :: "int \<Rightarrow> int"

definition toLowerCase :: "host \<Rightarrow> jsstr \<Rightarrow> jsstr" where
  "toLowerCase h s = (if list_all (\<lambda>c. c < 128) s then map asciiLower s else lowerUnicode h s)"

section \<open>Numbers\<close>

text \<open>
  A number produced by \<open>parseFloat\<close> is modelled by the exact value of the decimal
  numeral read (the program's number is the double nearest to it, infinite beyond the range
  of doubles), or NaN. \<open>parseFloat\<close> is modelled on the numerals that reach it in this
  program, digits with an optional fraction; a text that starts otherwise is read as NaN.
  Signs, exponents and leading white space are not modelled: the only call site passes
  group 1 of the money pattern, which starts with a digit and holds digits and at most one
  separator.
\<close>

datatype jsnum = Num rat | NaN

definition digitsVal :: "jsstr \<Rightarrow> nat" where
  "digitsVal ds = foldl (\<lambda>a c. 10 * a + (c - 48)) 0 ds"

definition parseFloat :: "jsstr \<Rightarrow> jsnum" where
  "parseFloat s =
     (let ip = takeWhile isDigit s; r = dropWhile isDigit s
      in case r of
           [] \<Rightarrow> (if ip = [] then NaN else Num (of_nat (digitsVal ip)))
         | x # r' \<Rightarrow>
             (if x = 46 then
                (let fp = takeWhile isDigit r'
                 in if ip = [] \<and> fp = [] then NaN
                    else Num (of_nat (digitsVal ip) + of_nat (digitsVal fp) / 10 ^ length fp))
              else if ip = [] then NaN else Num (of_nat (digitsVal ip))))"

section \<open>Dates\<close>

text \<open>
  A \<open>Date\<close> object holds a time value, milliseconds since 1970-01-01T00:00:00Z, or NaN
  (an invalid date). The day arithmetic is that of the language standard.
\<close>

datatype jsdate = ValidDate int | InvalidDate

definition msPerDay :: int where
  "msPerDay = 86400000"

definition TimeClip :: "int \<Rightarrow> jsdate" where
  "TimeClip t = (if \<bar>t\<bar> \<le> 8640000000000000 then ValidDate t else InvalidDate)"

definition DayFromYear :: "int \<Rightarrow> int" where
  "DayFromYear y = 365 * (y - 1970) + (y - 1969) div 4 - (y - 1901) div 100 + (y - 1601) div 400"

definition InLeapYear :: "int \<Rightarrow> bool" where
  "InLeapYear y = (y mod 4 = 0 \<and> (y mod 100 \<noteq> 0 \<or> y mod 400 = 0))"

text \<open>Months are numbered from 0 here, as in the standard's \<open>MakeDay\<close>.\<close>

definition daysBeforeMonth :: "bool \<Rightarrow> nat \<Rightarrow> int" where
  "daysBeforeMonth leap m =
     [0, 31, 59, 90, 120, 151, 181, 212, 243, 273, 304, 334] ! m + (if leap \<and> 2 \<le> m then 1 else 0)"

definition DaysInMonth :: "int \<Rightarrow> nat \<Rightarrow> nat" where
  "DaysInMonth y m =
     (if m = 1 then (if InLeapYear y then 29 else 28)
      else [31, 28, 31, 30, 31, 30, 31, 31, 30, 31, 30, 31] ! m)"

definition MakeDay :: "int \<Rightarrow> nat \<Rightarrow> int \<Rightarrow> int" where
  "MakeDay y m dt = DayFromYear y + daysBeforeMonth (InLeapYear y) m + dt - 1"

text \<open>The date-only form \<open>YYYY-MM-DD\<close> of the standard's date-time string format:
  year, month (from 1) and day as written.\<close>

definition isoDateOnly :: "jsstr \<Rightarrow> (nat \<times> nat \<times> nat) option" where
  "isoDateOnly s =
     (if length s = 10 \<and> s ! 4 = 45 \<and> s ! 7 = 45
         \<and> list_all isDigit (take 4 s) \<and> list_all isDigit (take 2 (drop 5 s))
         \<and> list_all isDigit (drop 8 s)
      then Some (digitsVal (take 4 s), digitsVal (take 2 (drop 5 s)), digitsVal (drop 8 s))
      else None)"

text \<open>
  \<open>Date.parse\<close>. A date-only string with a month in 1..12 and a day that exists in that
  month is midnight UTC of that day. A date-only string with a month outside 1..12 or a
  day outside 1..31 has an illegal element and gives NaN. Everything else is left to the
  implementation: a string that is not in the format, and a day such as February 30,
  which engines treat differently.
\<close>

definition Date_parse :: "host \<Rightarrow> jsstr \<Rightarrow> int option" where
  "Date_parse h s =
     (case isoDateOnly s of
        None \<Rightarrow> parseDateImpl h s
      | Some (y, mo, d) \<Rightarrow>
          if mo < 1 \<or> 12 < mo \<or> d < 1 \<or> 31 < d then None
          else if d \<le> DaysInMonth (int y) (mo - 1)
               then Some (MakeDay (int y) (mo - 1) (int d) * msPerDay)
               else parseDateImpl h s)"

text \<open>\<open>new Date(text)\<close> never throws: a text that does not parse gives an invalid date.\<close>

definition newDate :: "host \<Rightarrow> jsstr \<Rightarrow> jsdate" where
  "newDate h s = (case Date_parse h s of None \<Rightarrow> InvalidDate | Some t \<Rightarrow> TimeClip t)"

definition LocalTime :: "host \<Rightarrow> int \<Rightarrow> int" where
  "LocalTime h t = t + tzaUTC h t"

definition UTC :: "host \<Rightarrow> int \<Rightarrow> int" where
  "UTC h t = t - tzaLocal h t"

text \<open>
  \<open>addDays(date, n)\<close> of the date-fns library copies the date and, unless \<open>n\<close> is 0, calls
  \<open>setDate(getDate() + n)\<close> on the copy. \<open>getDate\<close> reads the day of the month in local
  time; \<open>setDate\<close> with that day plus \<open>n\<close> makes the day number of the local time larger
  by \<open>n\<close>, keeps the local time within the day, converts back to UTC and clips. An invalid
  date stays invalid. Nothing here throws.
\<close>

definition addDays :: "host \<Rightarrow> jsdate \<Rightarrow> int \<Rightarrow> jsdate" where
  "addDays h d n =
     (case d of
        InvalidDate \<Rightarrow> InvalidDate
      | ValidDate t \<Rightarrow> if n = 0 then ValidDate t else TimeClip (UTC h (LocalTime h t + n * msPerDay)))"

section \<open>The data of subscriptionService.ts\<close>

text \<open>
  \<open>EmailMsg\<close> is \<open>{ id: string; snippet?: string; payload?: any }\<close>. The program
  reads of the payload its \<open>headers\<close> only, an array of records, and of each record its
  \<open>name\<close> and \<open>value\<close>. The payload is typed \<open>any\<close>, so a name or a value may be
  a string, may be missing (\<open>undefined\<close> or \<open>null\<close>), or may be a value of another
  kind, such as a number. \<open>Other\<close> stands for a value of another kind that has no
  \<open>toLowerCase\<close> method: calling \<open>toLowerCase\<close> on it throws, as it does on a missing
  value unless the call is guarded by \<open>?.\<close>.
\<close>

datatype jsval = Nullish | Str jsstr | Other

record header =
  hname :: jsval
  hvalue :: jsval

record msgPayload =
  headers :: "header list option"

record EmailMsg =
  msgId :: jsstr
  snippet :: "jsstr option"
  payload :: "msgPayload option"

record rawData =
  messageId :: jsstr
  rawSnippet :: "jsstr option"

text \<open>\<open>ParsedSub\<close>: an optional field that is absent is \<open>None\<close>; \<open>startDate\<close> and
  \<open>nextBilling\<close> are always set by the program, to a date object or to \<open>null\<close>
  (\<open>None\<close>).\<close>

record ParsedSub =
  provider :: jsstr
  product :: "jsstr option"
  amount :: "jsnum option"
  currency :: "jsstr option"
  startDate :: "jsdate option"
  nextBilling :: "jsdate option"
  rawData :: rawData

datatype error = TypeError

definition knownProviders :: "jsstr list" where
  "knownProviders =
     [js ''openai'', js ''perplexity'', js ''claude'', js ''spotify'', js ''youtube'',
      js ''netflix'', js ''stripe'', js ''apple'', js ''amazon'']"

section \<open>guessProviderFromHeaders\<close>

text \<open>\<open>headers.find((h) => h.name.toLowerCase() === "from")\<close>: the headers are tested in
  order up to the first hit; testing a header whose name is not a string throws.\<close>

fun findFrom :: "host \<Rightarrow> header list \<Rightarrow> error + header option" where
  "findFrom h [] = Inr None"
| "findFrom h (x # xs) =
     (case hname x of
        Str n \<Rightarrow> if toLowerCase h n = js ''from'' then Inr (Some x) else findFrom h xs
      | Nullish \<Rightarrow> Inl TypeError
      | Other \<Rightarrow> Inl TypeError)"

text \<open>\<open>for (const p of knownProviders) if (from.includes(p)) return p; return null\<close>\<close>

fun firstProviderIn :: "jsstr \<Rightarrow> jsstr list \<Rightarrow> jsstr option" where
  "firstProviderIn from [] = None"
| "firstProviderIn from (p # ps) = (if includesStr from p then Some p else firstProviderIn from ps)"

text \<open>\<open>found?.value?.toLowerCase() || ""\<close>: no header found, or a missing value, gives the
  empty string; a string is lower-cased; a value of another kind throws.\<close>

definition fromValue :: "host \<Rightarrow> header option \<Rightarrow> error + jsstr" where
  "fromValue h found =
     (case found of
        None \<Rightarrow> Inr []
      | Some x \<Rightarrow>
          (case hvalue x of
             Nullish \<Rightarrow> Inr []
           | Str v \<Rightarrow> Inr (toLowerCase h v)
           | Other \<Rightarrow> Inl TypeError))"

definition guessProviderFromHeaders :: "host \<Rightarrow> msgPayload option \<Rightarrow> error + jsstr option" where
  "guessProviderFromHeaders h pl =
     (case pl of
        None \<Rightarrow> Inr None
      | Some p \<Rightarrow>
          (case findFrom h (case headers p of None \<Rightarrow> [] | Some hs \<Rightarrow> hs) of
             Inl e \<Rightarrow> Inl e
           | Inr found \<Rightarrow>
               (case fromValue h found of
                  Inl e \<Rightarrow> Inl e
                | Inr from \<Rightarrow> Inr (firstProviderIn from knownProviders))))"

section \<open>extractAmount\<close>

record amountResult =
  ar_amount :: "jsnum option"
  ar_currency :: "jsstr option"

text \<open>\<open>m[1].replace\<close> would throw if group 1 were unset in a match.\<close>

definition extractAmount :: "jsstr \<Rightarrow> error + amountResult" where
  "extractAmount snip =
     (case match snip moneyRegex of
        None \<Rightarrow> Inr \<lparr>ar_amount = None, ar_currency = None\<rparr>
      | Some m \<Rightarrow>
          (case groups m 1 of
             None \<Rightarrow> Inl TypeError
           | Some g \<Rightarrow>
               let raw = replaceFirstComma g;
                   num = parseFloat raw;
                   cur = (if includesStr snip [DOLLAR] then js ''USD''
                          else if includesStr snip [EURO] then js ''EUR''
                          else if includesStr snip [NAIRA] then js ''NGN''
                          else js ''USD'')
               in Inr \<lparr>ar_amount = Some num, ar_currency = Some cur\<rparr>))"

section \<open>extractDates\<close>

record datesResult =
  dr_start :: "jsdate option"
  dr_next :: "jsdate option"

text \<open>
  Neither \<open>new Date\<close> nor \<open>addDays\<close> throws, so the two \<open>catch\<close> blocks of the source are
  never entered: a pattern that matches decides the result. (\<open>new Date(undefined)\<close> is an
  invalid date.)
\<close>

definition extractDates :: "host \<Rightarrow> jsstr \<Rightarrow> datesResult" where
  "extractDates h snip =
     (case match snip isoRegex of
        Some isoM \<Rightarrow>
          let d = (case groups isoM 1 of None \<Rightarrow> InvalidDate | Some g \<Rightarrow> newDate h g)
          in \<lparr>dr_start = Some d, dr_next = Some (addDays h d 30)\<rparr>
      | None \<Rightarrow>
          (case match snip longDateRegex of
             Some longDate \<Rightarrow>
               let d = newDate h (matched longDate)
               in \<lparr>dr_start = Some d, dr_next = Some (addDays h d 30)\<rparr>
           | None \<Rightarrow> \<lparr>dr_start = None, dr_next = None\<rparr>))"

section \<open>parseSubscriptionsFromEmails\<close>

definition subscriptionKeywords :: "jsstr list" where
  "subscriptionKeywords =
     [js ''subscription'', js ''renewal'', js ''renewed'', js ''payment'', js ''invoice'',
      js ''charged'', js ''billed'', js ''receipt'', js ''plan'', js ''auto-renew'',
      js ''membership'']"

definition brandKeywords :: "host \<Rightarrow> jsstr list" where
  "brandKeywords h = map (toLowerCase h) (subs h)"

text \<open>\<open>m.snippet || ""\<close>\<close>

definition snippetOrEmpty :: "EmailMsg \<Rightarrow> jsstr" where
  "snippetOrEmpty m = (case snippet m of None \<Rightarrow> [] | Some s \<Rightarrow> s)"

text \<open>\<open>a || b\<close> on strings that may be \<open>null\<close> or \<open>undefined\<close>: the empty string is
  falsy too.\<close>

definition orElse :: "jsstr option \<Rightarrow> jsstr \<Rightarrow> jsstr" where
  "orElse a b = (case a of None \<Rightarrow> b | Some x \<Rightarrow> if x = [] then b else x)"

text \<open>\<open>m.snippet?.match(...)\<close> and \<open>prodMatch[2].trim().split("\n")[0]\<close>, which would throw
  if group 2 were unset in a match.\<close>

definition extractProduct :: "jsstr option \<Rightarrow> error + jsstr option" where
  "extractProduct sn =
     (case sn of
        None \<Rightarrow> Inr None
      | Some s \<Rightarrow>
          (case match s productRegex of
             None \<Rightarrow> Inr None
           | Some prodMatch \<Rightarrow>
               (case groups prodMatch 2 of
                  None \<Rightarrow> Inl TypeError
                | Some g \<Rightarrow> Inr (Some (firstLine (trim g))))))"

text \<open>The candidate filter of the loop body: the two \<open>continue\<close> statements.\<close>

definition hasBrand :: "host \<Rightarrow> jsstr \<Rightarrow> bool" where
  "hasBrand h low = list_ex (\<lambda>b. includesStr low b) (brandKeywords h)"

definition hasPayment :: "jsstr \<Rightarrow> bool" where
  "hasPayment low = list_ex (\<lambda>k. includesStr low k) subscriptionKeywords"

definition hasCurrencyToken :: "jsstr \<Rightarrow> bool" where
  "hasCurrencyToken low = (match low filterRegex \<noteq> None)"

text \<open>\<open>next || (start ? addDays(start, 30) : null)\<close>: a date object is truthy, also
  an invalid one.\<close>

definition nextBillingOf :: "host \<Rightarrow> datesResult \<Rightarrow> jsdate option" where
  "nextBillingOf h ds =
     (case dr_next ds of
        Some n \<Rightarrow> Some n
      | None \<Rightarrow> (case dr_start ds of Some s \<Rightarrow> Some (addDays h s 30) | None \<Rightarrow> None))"

text \<open>\<open>providerFromHeader || knownProviders.find((p) => snippet.includes(p)) || "unknown"\<close>\<close>

definition resolveProvider :: "jsstr option \<Rightarrow> jsstr \<Rightarrow> jsstr" where
  "resolveProvider providerFromHeader low =
     orElse providerFromHeader
       (orElse (find (\<lambda>p. includesStr low p) knownProviders) (js ''unknown''))"

text \<open>One turn of the loop over the messages: an error, no candidate (\<open>continue\<close>), or
  the candidate pushed. The header is examined before the filter, as in the source.\<close>

definition processMsg :: "host \<Rightarrow> EmailMsg \<Rightarrow> error + ParsedSub option" where
  "processMsg h m =
     (let low = toLowerCase h (snippetOrEmpty m)
      in case guessProviderFromHeaders h (payload m) of
           Inl e \<Rightarrow> Inl e
         | Inr providerFromHeader \<Rightarrow>
             if \<not> hasBrand h low \<or> \<not> hasPayment low then Inr None
             else if \<not> hasCurrencyToken low then Inr None
             else
               (case extractAmount (snippetOrEmpty m) of
                  Inl e \<Rightarrow> Inl e
                | Inr am \<Rightarrow>
                    (case extractProduct (snippet m) of
                       Inl e \<Rightarrow> Inl e
                     | Inr prodOpt \<Rightarrow>
                         Inr (Some
                           \<lparr>provider = resolveProvider providerFromHeader low,
                            product = prodOpt,
                            amount = ar_amount am,
                            currency = ar_currency am,
                            startDate = dr_start (extractDates h (snippetOrEmpty m)),
                            nextBilling = nextBillingOf h (extractDates h (snippetOrEmpty m)),
                            rawData = \<lparr>messageId = msgId m, rawSnippet = snippet m\<rparr>\<rparr>))))"

text \<open>The first loop: \<open>results\<close> grows at its end; an error leaves the function.\<close>

fun collect :: "host \<Rightarrow> EmailMsg list \<Rightarrow> ParsedSub list \<Rightarrow> error + ParsedSub list" where
  "collect h [] results = Inr results"
| "collect h (m # msgs) results =
     (case processMsg h m of
        Inl e \<Rightarrow> Inl e
      | Inr None \<Rightarrow> collect h msgs results
      | Inr (Some r) \<Rightarrow> collect h msgs (results @ [r]))"

text \<open>The second loop: \<open>grouped\<close> is a map that keeps the order of insertion, modelled
  by the list of its entries.\<close>

definition keyOf :: "ParsedSub \<Rightarrow> jsstr" where
  "keyOf r = provider r @ js ''::'' @ (case product r of None \<Rightarrow> js ''unknown'' | Some p \<Rightarrow> p)"

fun dedupe :: "ParsedSub list \<Rightarrow> (jsstr \<times> ParsedSub) list \<Rightarrow> (jsstr \<times> ParsedSub) list" where
  "dedupe [] grouped = grouped"
| "dedupe (r # rs) grouped =
     (if map_of grouped (keyOf r) = None then dedupe rs (grouped @ [(keyOf r, r)])
      else dedupe rs grouped)"

definition parseSubscriptionsFromEmails :: "host \<Rightarrow> EmailMsg list \<Rightarrow> error + ParsedSub list" where
  "parseSubscriptionsFromEmails h msgs =
     (case collect h msgs [] of
        Inl e \<Rightarrow> Inl e
      | Inr results \<Rightarrow> Inr (map snd (dedupe results [])))"

section \<open>Notions used to state and prove the properties\<close>

text \<open>\<open>binds n r\<close>: every way of matching \<open>r\<close> passes through capture group \<open>n\<close>.\<close>

fun binds :: "nat \<Rightarrow> regex \<Rightarrow> bool" where
  "binds n (Grp k r) = (k = n \<or> binds n r)"
| "binds n (Seq a b) = (binds n a \<or> binds n b)"
| "binds n (Alt a b) = (binds n a \<and> binds n b)"
| "binds n r = False"

text \<open>\<open>groupFree r\<close>: no capture group occurs in \<open>r\<close>.\<close>

fun groupFree :: "regex \<Rightarrow> bool" where
  "groupFree (Grp k r) = False"
| "groupFree (Seq a b) = (groupFree a \<and> groupFree b)"
| "groupFree (Alt a b) = (groupFree a \<and> groupFree b)"
| "groupFree (Opt a) = groupFree a"
| "groupFree r = True"

text \<open>The candidates that the first loop pushes, in the order of the messages.\<close>

definition perMessage :: "host \<Rightarrow> EmailMsg list \<Rightarrow> ParsedSub list" where
  "perMessage h msgs =
     concat (map (\<lambda>m. case processMsg h m of Inr (Some c) \<Rightarrow> [c] | _ \<Rightarrow> []) msgs)"

text \<open>Keeping, of a list of candidates, each one whose key is not in \<open>seen\<close> and was not
  met before.\<close>

fun keepFirst :: "jsstr set \<Rightarrow> ParsedSub list \<Rightarrow> ParsedSub list" where
  "keepFirst seen [] = []"
| "keepFirst seen (r # rs) =
     (if keyOf r \<in> seen then keepFirst seen rs else r # keepFirst (insert (keyOf r) seen) rs)"

text \<open>The text of the message a candidate was made from, as the candidate records it
  (\<open>m.snippet || ""\<close>).\<close>

definition sourceText :: "ParsedSub \<Rightarrow> jsstr" where
  "sourceText c = (case rawSnippet (rawData c) of None \<Rightarrow> [] | Some s \<Rightarrow> s)"

subsection \<open>Concrete hosts and messages\<close>

text \<open>Midnight UTC of a calendar day, the month counted from 1.\<close>

definition utcMidnight :: "int \<Rightarrow> int \<Rightarrow> int \<Rightarrow> int" where
  "utcMidnight y mo d = MakeDay y (nat (mo - 1)) d * msPerDay"

text \<open>A host in UTC whose engine reads \<open>Jan 5, 2024\<close> as midnight of that day and no other
  text that the standard leaves open.\<close>

definition utcHost :: host where
  "utcHost =
     \<lparr>subs = [js ''netflix'', js ''Spotify''],
      lowerUnicode = (\<lambda>s. s),
      parseDateImpl = (\<lambda>s. if s = js ''Jan 5, 2024'' then Some 1704412800000 else None),
      tzaUTC = (\<lambda>t. 0),
      tzaLocal = (\<lambda>t. 0)\<rparr>"

text \<open>A host whose zone is five hours behind UTC until 2024-03-10T07:00Z and four hours
  behind from then on, as America/New\_York is in the spring of 2024.\<close>

definition dstHost :: host where
  "dstHost =
     \<lparr>subs = [js ''netflix'', js ''Spotify''],
      lowerUnicode = (\<lambda>s. s),
      parseDateImpl = (\<lambda>s. None),
      tzaUTC = (\<lambda>t. if t < 1710054000000 then - 18000000 else - 14400000),
      tzaLocal = (\<lambda>t. if t < 1710039600000 then - 18000000 else - 14400000)\<rparr>"

definition textA :: jsstr where
  "textA = js ''Your Netflix subscription of $15.99 renewed on 2024-03-05''"

text \<open>Scenario A of the specification: one message with that text and no headers.\<close>

definition scenarioA :: "jsstr \<Rightarrow> EmailMsg" where
  "scenarioA i = \<lparr>msgId = i, snippet = Some textA, payload = None\<rparr>"

definition candidateA :: "jsstr \<Rightarrow> jsdate \<Rightarrow> ParsedSub" where
  "candidateA i nb =
     \<lparr>provider = js ''netflix'',
      product = Some (js ''of''),
      amount = Some (Num (1599 / 100)),
      currency = Some (js ''USD''),
      startDate = Some (ValidDate (utcMidnight 2024 3 5)),
      nextBilling = Some nb,
      rawData = \<lparr>messageId = i, rawSnippet = Some textA\<rparr>\<rparr>"

text \<open>Scenario E: the text of scenario A with a date that no calendar has.\<close>

definition textE :: jsstr where
  "textE = js ''Your Netflix subscription of $15.99 renewed on 2024-13-45''"

definition scenarioE :: "jsstr \<Rightarrow> EmailMsg" where
  "scenarioE i = \<lparr>msgId = i, snippet = Some textE, payload = None\<rparr>"

text \<open>Scenario D: a date in the long form, in a message with a given payload.\<close>

definition textD :: jsstr where
  "textD = js ''Your Spotify membership: Premium, $9.99 charged on Jan 5, 2024''"

definition scenarioD :: "jsstr \<Rightarrow> msgPayload option \<Rightarrow> EmailMsg" where
  "scenarioD i pl = \<lparr>msgId = i, snippet = Some textD, payload = pl\<rparr>"

definition stripeHeaders :: msgPayload where
  "stripeHeaders =
     \<lparr>headers = Some [\<lparr>hname = Str (js ''Subject''), hvalue = Str (js ''Your receipt'')\<rparr>,
                      \<lparr>hname = Str (js ''From''),
                       hvalue = Str (js ''Billing <billing@Stripe.com>'')\<rparr>]\<rparr>"

definition candidateD :: "jsstr \<Rightarrow> jsstr \<Rightarrow> ParsedSub" where
  "candidateD i prov =
     \<lparr>provider = prov,
      product = Some (js ''Premium''),
      amount = Some (Num (999 / 100)),
      currency = Some (js ''USD''),
      startDate = Some (ValidDate (utcMidnight 2024 1 5)),
      nextBilling = Some (ValidDate (utcMidnight 2024 2 4)),
      rawData = \<lparr>messageId = i, rawSnippet = Some textD\<rparr>\<rparr>"

text \<open>Scenario B: a brand and a keyword but no currency token, with well-formed
  headers.\<close>

definition textB :: jsstr where
  "textB = js ''Your Netflix subscription was renewed''"

definition scenarioB :: "jsstr \<Rightarrow> EmailMsg" where
  "scenarioB i = \<lparr>msgId = i, snippet = Some textB, payload = Some stripeHeaders\<rparr>"



text \<open>The text of scenario A in a message whose only header is named \<open>From\<close> and has a
  number for its value.\<close>

definition numberValued :: EmailMsg where
  "numberValued =
     \<lparr>msgId = js ''m1'', snippet = Some textA,
      payload = Some \<lparr>headers = Some [\<lparr>hname = Str (js ''From''), hvalue = Other\<rparr>]\<rparr>\<rparr>"

text \<open>A text whose first ISO-like date has month 13 and which goes on with a date in the
  long form.\<close>

definition textG :: jsstr where
  "textG = js ''Your Netflix subscription of $15.99, ref 2024-13-45, due Jan 5, 2024''"

definition scenarioG :: "jsstr \<Rightarrow> EmailMsg" where
  "scenarioG i = \<lparr>msgId = i, snippet = Some textG, payload = None\<rparr>"

text \<open>A host whose brand list names a service outside the provider enumeration, and a
  message about it with no digit, no date and no plan word, under well-formed headers.\<close>

definition huluHost :: host where
  "huluHost = utcHost\<lparr>subs := [js ''Hulu'']\<rparr>"

definition textF :: jsstr where
  "textF = js ''Hulu payment due: $''"

definition huluHeaders :: msgPayload where
  "huluHeaders =
     \<lparr>headers = Some [\<lparr>hname = Str (js ''Subject''), hvalue = Nullish\<rparr>,
                      \<lparr>hname = Str (js ''FROM''), hvalue = Str (js ''Hulu <billing@hulu.com>'')\<rparr>]\<rparr>"

definition scenarioF :: "jsstr \<Rightarrow> EmailMsg" where
  "scenarioF i = \<lparr>msgId = i, snippet = Some textF, payload = Some huluHeaders\<rparr>"

definition candidateF :: "jsstr \<Rightarrow> ParsedSub" where
  "candidateF i =
     \<lparr>provider = js ''unknown'',
      product = None,
      amount = None,
      currency = None,
      startDate = None,
      nextBilling = None,
      rawData = \<lparr>messageId = i, rawSnippet = Some textF\<rparr>\<rparr>"

subsection \<open>The specification's notions, in its words\<close>

text \<open>\<open>namedHeaders\<close>: every header of the payload carries a string name.
  \<open>wellFormedHeaders\<close>: moreover, every header's value is a string or is missing.\<close>

definition isStr :: "jsval \<Rightarrow> bool" where
  "isStr v = (case v of Str _ \<Rightarrow> True | _ \<Rightarrow> False)"

definition headersOf :: "EmailMsg \<Rightarrow> header list" where
  "headersOf m =
     (case payload m of
        None \<Rightarrow> []
      | Some p \<Rightarrow> (case headers p of None \<Rightarrow> [] | Some hs \<Rightarrow> hs))"

definition namedHeaders :: "EmailMsg \<Rightarrow> bool" where
  "namedHeaders m = list_all (\<lambda>x. isStr (hname x)) (headersOf m)"

definition wellFormedHeaders :: "EmailMsg \<Rightarrow> bool" where
  "wellFormedHeaders m = list_all (\<lambda>x. isStr (hname x) \<and> hvalue x \<noteq> Other) (headersOf m)"

text \<open>
  The two tiers of the provider matcher: the first header whose name, lower-cased, is
  \<open>from\<close>, its value lower-cased and searched for the first member of the enumeration
  that it contains; then the lower-cased text searched the same way; then \<open>unknown\<close>.
\<close>

definition namedFrom :: "host \<Rightarrow> header \<Rightarrow> bool" where
  "namedFrom h x = (case hname x of Str n \<Rightarrow> toLowerCase h n = js ''from'' | _ \<Rightarrow> False)"

definition headerProvider :: "host \<Rightarrow> EmailMsg \<Rightarrow> jsstr option" where
  "headerProvider h m =
     (case find (namedFrom h) (headersOf m) of
        None \<Rightarrow> None
      | Some x \<Rightarrow>
          (case hvalue x of
             Str v \<Rightarrow> find (\<lambda>p. includesStr (toLowerCase h v) p) knownProviders
           | _ \<Rightarrow> None))"

definition bodyProvider :: "host \<Rightarrow> EmailMsg \<Rightarrow> jsstr option" where
  "bodyProvider h m = find (\<lambda>p. includesStr (toLowerCase h (snippetOrEmpty m)) p) knownProviders"

definition twoTierProvider :: "host \<Rightarrow> EmailMsg \<Rightarrow> jsstr" where
  "twoTierProvider h m =
     (case headerProvider h m of
        Some p \<Rightarrow> p
      | None \<Rightarrow> (case bodyProvider h m of Some p \<Rightarrow> p | None \<Rightarrow> js ''unknown''))"

text \<open>The date text the temporal extractor settles on: the first match of the ISO
  pattern, or else the first match of the long-form pattern.\<close>

definition firstDateText :: "jsstr \<Rightarrow> jsstr option" where
  "firstDateText s =
     (case match s isoRegex of
        Some m \<Rightarrow> groups m 1
      | None \<Rightarrow> map_option matched (match s longDateRegex))"

text \<open>
  The currency-like token of the candidate filter: one of the four currency signs, or a
  digit followed, directly or after one white-space character, by one of the codes
  \<open>usd\<close>, \<open>ngn\<close>, \<open>eur\<close>, \<open>gbp\<close> in any letter case.
\<close>

definition isCode3 :: "jsstr \<Rightarrow> bool" where
  "isCode3 u = (map asciiLower (take 3 u) \<in> set [js ''usd'', js ''ngn'', js ''eur'', js ''gbp''])"

definition spaceThenCode :: "jsstr \<Rightarrow> bool" where
  "spaceThenCode u = (isCode3 u \<or> (case u of [] \<Rightarrow> False | w # r \<Rightarrow> isSpace w \<and> isCode3 r))"

fun tokenHere :: "jsstr \<Rightarrow> bool" where
  "tokenHere [] = False"
| "tokenHere (d # rest) = (isDigit d \<and> spaceThenCode rest)"

fun numberBesideCode :: "jsstr \<Rightarrow> bool" where
  "numberBesideCode [] = False"
| "numberBesideCode (x # xs) = (tokenHere (x # xs) \<or> numberBesideCode xs)"

definition currencyLikeToken :: "jsstr \<Rightarrow> bool" where
  "currencyLikeToken s =
     (DOLLAR \<in> set s \<or> EURO \<in> set s \<or> POUND \<in> set s \<or> NAIRA \<in> set s \<or> numberBesideCode s)"

text \<open>The candidate filter on a message text: its lower-cased form contains a
  (lower-cased) brand name, a subscription keyword and a currency-like token.\<close>

definition candidateFilter :: "host \<Rightarrow> jsstr \<Rightarrow> bool" where
  "candidateFilter h text =
     (list_ex (\<lambda>b. includesStr (toLowerCase h text) (toLowerCase h b)) (subs h)
      \<and> list_ex (\<lambda>k. includesStr (toLowerCase h text) k) subscriptionKeywords
      \<and> currencyLikeToken (toLowerCase h text))"

text \<open>A currency sign at the head of a text.\<close>

definition symbolHere :: "jsstr \<Rightarrow> bool" where
  "symbolHere s = (case s of [] \<Rightarrow> False | x # _ \<Rightarrow> x = DOLLAR \<or> x = NAIRA \<or> x = EURO \<or> x = POUND)"

section \<open>Lemmas\<close>

subsection \<open>Strings\<close>

lemma startsWith_iff: "startsWith s p \<longleftrightarrow> (\<exists>b. s = p @ b)"
  by (induction s p rule: startsWith.induct) auto

lemma includesStr_iff: "includesStr s p \<longleftrightarrow> (\<exists>a b. s = a @ p @ b)"
proof (induction s)
  case Nil
  show ?case by auto
next
  case (Cons x xs)
  show ?case
  proof
    assume "includesStr (x # xs) p"
    then consider "startsWith (x # xs) p" | "includesStr xs p" by auto
    then show "\<exists>a b. x # xs = a @ p @ b"
    proof cases
      case 1
      then obtain b where "x # xs = p @ b" unfolding startsWith_iff by blast
      then have "x # xs = [] @ p @ b" by simp
      then show ?thesis by blast
    next
      case 2
      then obtain a b where "xs = a @ p @ b" using Cons.IH by blast
      then have "x # xs = (x # a) @ p @ b" by simp
      then show ?thesis by blast
    qed
  next
    assume "\<exists>a b. x # xs = a @ p @ b"
    then obtain a b where e: "x # xs = a @ p @ b" by blast
    show "includesStr (x # xs) p"
    proof (cases a)
      case Nil
      with e have "startsWith (x # xs) p" unfolding startsWith_iff by auto
      then show ?thesis by simp
    next
      case (Cons y ys)
      with e have "xs = ys @ p @ b" by simp
      then have "includesStr xs p" using Cons.IH by blast
      then show ?thesis by simp
    qed
  qed
qed

lemma includes_single: "includesStr s [x] \<longleftrightarrow> x \<in> set s"
  by (induction s) auto

subsection \<open>Captures of a match\<close>

lemma ms_keeps_capture:
  "(p', s', c') \<in> set (ms r (p, s, c)) \<Longrightarrow> c n \<noteq> None \<Longrightarrow> c' n \<noteq> None"
proof (induction r arbitrary: p s c p' s' c')
  case (Atom P)
  then show ?case by (auto split: list.splits if_splits)
next
  case (Seq a b)
  from Seq.prems(1) obtain p1 s1 c1 where
    1: "(p1, s1, c1) \<in> set (ms a (p, s, c))" and 2: "(p', s', c') \<in> set (ms b (p1, s1, c1))"
    by auto
  from Seq.IH(1)[OF 1 Seq.prems(2)] have "c1 n \<noteq> None" .
  from Seq.IH(2)[OF 2 this] show ?case .
next
  case (Opt r)
  then show ?case by (auto split: if_splits)
next
  case (Rep P lo hi)
  then show ?case by (auto simp: ms_rep_def Let_def)
next
  case (Grp k r)
  then show ?case by (auto split: if_splits)
next
  case WordB
  then show ?case by (auto split: if_splits)
qed auto

lemma ms_binds_capture:
  "binds n r \<Longrightarrow> (p', s', c') \<in> set (ms r (p, s, c)) \<Longrightarrow> c' n \<noteq> None"
proof (induction r arbitrary: p s c p' s' c')
  case (Seq a b)
  from Seq.prems(2) obtain p1 s1 c1 where
    1: "(p1, s1, c1) \<in> set (ms a (p, s, c))" and 2: "(p', s', c') \<in> set (ms b (p1, s1, c1))"
    by auto
  show ?case
  proof (cases "binds n b")
    case True
    from Seq.IH(2)[OF True 2] show ?thesis .
  next
    case False
    with Seq.prems(1) have "binds n a" by simp
    from Seq.IH(1)[OF this 1] have "c1 n \<noteq> None" .
    from ms_keeps_capture[OF 2 this] show ?thesis .
  qed
next
  case (Grp k r)
  then show ?case by (auto split: if_splits)
qed auto

lemma search_from_state:
  "search_from r p s i = Some m \<Longrightarrow>
     \<exists>p' s' c' p0 s0. (p', s', c') \<in> set (ms r (p0, s0, Map.empty)) \<and> groups m = c'"
proof (induction s arbitrary: p i)
  case Nil
  then show ?case
    by (cases "ms r (p, [], Map.empty)") (auto, metis list.set_intros(1) prod.collapse)
next
  case (Cons x xs)
  show ?case
  proof (cases "ms r (p, x # xs, Map.empty)")
    case Nil
    with Cons show ?thesis by simp
  next
    case (Cons st sts)
    with Cons.prems have "groups m = snd (snd st)" by auto
    moreover have "(fst st, fst (snd st), snd (snd st)) \<in> set (ms r (p, x # xs, Map.empty))"
      using Cons by simp
    ultimately show ?thesis by metis
  qed
qed

lemma match_binds: "binds n r \<Longrightarrow> match s r = Some m \<Longrightarrow> groups m n \<noteq> None"
  unfolding match_def using search_from_state ms_binds_capture by metis

lemma binds_money: "binds 1 moneyRegex"
  by (simp add: moneyRegex_def)

lemma binds_product: "binds 2 productRegex"
  by (simp add: productRegex_def)

subsection \<open>The two loops\<close>

lemma collect_Inr: "collect h msgs acc = Inr rs \<Longrightarrow> rs = acc @ perMessage h msgs"
proof (induction h msgs acc rule: collect.induct)
  case (1 h results)
  then show ?case by (simp add: perMessage_def)
next
  case (2 h m msgs results)
  show ?case
  proof (cases "processMsg h m")
    case (Inl e)
    with 2 show ?thesis by simp
  next
    case (Inr r)
    show ?thesis
    proof (cases r)
      case None
      with 2 Inr show ?thesis by (simp add: perMessage_def)
    next
      case (Some c)
      with 2 Inr show ?thesis by (simp add: perMessage_def)
    qed
  qed
qed

lemma collect_total:
  "(\<forall>m \<in> set msgs. \<exists>r. processMsg h m = Inr r) \<Longrightarrow>
     collect h msgs acc = Inr (acc @ perMessage h msgs)"
  by (induction msgs arbitrary: acc) (auto simp: perMessage_def split: sum.splits option.splits)

lemma perMessage_length: "length (perMessage h msgs) \<le> length msgs"
  by (induction msgs) (auto simp: perMessage_def split: sum.splits option.splits)

lemma perMessage_source:
  "c \<in> set (perMessage h msgs) \<Longrightarrow> \<exists>m \<in> set msgs. processMsg h m = Inr (Some c)"
  by (auto simp: perMessage_def split: sum.splits option.splits)

lemma dedupe_keepFirst:
  "map snd (dedupe rs g) = map snd g @ keepFirst (fst ` set g) rs"
  by (induction rs arbitrary: g) (auto simp: map_of_eq_None_iff)

lemma keepFirst_length: "length (keepFirst seen rs) \<le> length rs"
  by (induction rs arbitrary: seen) (auto intro: le_SucI)

lemma keepFirst_subset: "set (keepFirst seen rs) \<subseteq> set rs"
  by (induction rs arbitrary: seen) auto

lemma keepFirst_keys_fresh: "keyOf ` set (keepFirst seen rs) \<inter> seen = {}"
  by (induction rs arbitrary: seen) auto

lemma keepFirst_distinct: "distinct (map keyOf (keepFirst seen rs))"
proof (induction rs arbitrary: seen)
  case (Cons r rs)
  have "keyOf r \<notin> keyOf ` set (keepFirst (insert (keyOf r) seen) rs)"
    using keepFirst_keys_fresh[of "insert (keyOf r) seen" rs] by auto
  with Cons show ?case by auto
qed simp

lemma all_less_Suc_shift: "(\<forall>j < Suc i. P j) = (P 0 \<and> (\<forall>j < i. P (Suc j)))"
  by (metis less_Suc_eq_0_disj)

lemma keepFirst_index:
  "keepFirst seen rs =
     map (\<lambda>i. rs ! i)
       (filter (\<lambda>i. keyOf (rs ! i) \<notin> seen \<and> (\<forall>j < i. keyOf (rs ! j) \<noteq> keyOf (rs ! i)))
          [0..<length rs])"
proof (induction rs arbitrary: seen)
  case Nil
  show ?case by simp
next
  case (Cons r rs)
  have upt: "[0..<length (r # rs)] = 0 # map Suc [0..<length rs]"
    by (simp add: upt_conv_Cons map_Suc_upt del: upt_Suc)
  show ?case
  proof (cases "keyOf r \<in> seen")
    case True
    have "keepFirst seen (r # rs) = keepFirst seen rs" using True by simp
    also have "\<dots> = map (\<lambda>i. rs ! i)
       (filter (\<lambda>i. keyOf (rs ! i) \<notin> seen \<and> (\<forall>j < i. keyOf (rs ! j) \<noteq> keyOf (rs ! i)))
          [0..<length rs])" by (rule Cons.IH)
    also have "\<dots> = map (\<lambda>i. (r # rs) ! i)
       (filter (\<lambda>i. keyOf ((r # rs) ! i) \<notin> seen
                   \<and> (\<forall>j < i. keyOf ((r # rs) ! j) \<noteq> keyOf ((r # rs) ! i)))
          [0..<length (r # rs)])"
    proof -
      have eq: "\<And>i. (keyOf (rs ! i) \<notin> seen \<and> keyOf r \<noteq> keyOf (rs ! i)
                      \<and> (\<forall>j < i. keyOf (rs ! j) \<noteq> keyOf (rs ! i)))
                   = (keyOf (rs ! i) \<notin> seen \<and> (\<forall>j < i. keyOf (rs ! j) \<noteq> keyOf (rs ! i)))"
        using True by auto
      show ?thesis
        unfolding upt using True
        by (simp add: filter_map comp_def all_less_Suc_shift eq)
    qed
    finally show ?thesis .
  next
    case False
    have "keepFirst seen (r # rs) = r # keepFirst (insert (keyOf r) seen) rs" using False by simp
    also have "keepFirst (insert (keyOf r) seen) rs = map (\<lambda>i. rs ! i)
       (filter (\<lambda>i. keyOf (rs ! i) \<notin> insert (keyOf r) seen
                   \<and> (\<forall>j < i. keyOf (rs ! j) \<noteq> keyOf (rs ! i)))
          [0..<length rs])" by (rule Cons.IH)
    also have "r # \<dots> = map (\<lambda>i. (r # rs) ! i)
       (filter (\<lambda>i. keyOf ((r # rs) ! i) \<notin> seen
                   \<and> (\<forall>j < i. keyOf ((r # rs) ! j) \<noteq> keyOf ((r # rs) ! i)))
          [0..<length (r # rs)])"
    proof -
      have eq: "\<And>i. (keyOf (rs ! i) \<notin> seen \<and> keyOf r \<noteq> keyOf (rs ! i)
                      \<and> (\<forall>j < i. keyOf (rs ! j) \<noteq> keyOf (rs ! i)))
                   = (keyOf (rs ! i) \<noteq> keyOf r \<and> keyOf (rs ! i) \<notin> seen
                      \<and> (\<forall>j < i. keyOf (rs ! j) \<noteq> keyOf (rs ! i)))"
        by auto
      show ?thesis
        unfolding upt using False
        by (simp add: filter_map comp_def all_less_Suc_shift eq)
    qed
    finally show ?thesis .
  qed
qed

lemma parse_Inr:
  "parseSubscriptionsFromEmails h msgs = Inr out \<Longrightarrow> out = keepFirst {} (perMessage h msgs)"
  by (auto simp: parseSubscriptionsFromEmails_def dedupe_keepFirst split: sum.splits
      dest: collect_Inr)

lemma parse_source:
  assumes "parseSubscriptionsFromEmails h msgs = Inr out" "c \<in> set out"
  shows "\<exists>m \<in> set msgs. processMsg h m = Inr (Some c)"
  using assms parse_Inr keepFirst_subset perMessage_source by blast

lemma distinct_map_finer:
  assumes "\<And>a b. g a = g b \<Longrightarrow> f a = f b" and "distinct (map f xs)"
  shows "distinct (map g xs)"
  using assms(2)
proof (induction xs)
  case Nil
  show ?case by simp
next
  case (Cons x xs)
  have "g x \<notin> g ` set xs"
  proof
    assume "g x \<in> g ` set xs"
    then obtain y where "y \<in> set xs" "g x = g y" by blast
    then have "f x \<in> f ` set xs" using assms(1) by (metis imageI)
    with Cons.prems show False by simp
  qed
  with Cons show ?case by simp
qed

lemma distinct_key_pairs:
  "distinct (map keyOf xs) \<Longrightarrow> distinct (map (\<lambda>c. (provider c, product c)) xs)"
  by (rule distinct_map_finer[where f = keyOf]) (simp_all add: keyOf_def)

subsection \<open>The extractors and one turn of the loop\<close>

lemma extractAmount_cases:
  "extractAmount s = Inr am \<Longrightarrow>
     (match s moneyRegex = None \<and> ar_amount am = None \<and> ar_currency am = None)
   \<or> (\<exists>m g. match s moneyRegex = Some m \<and> groups m 1 = Some g
          \<and> ar_amount am = Some (parseFloat (replaceFirstComma g))
          \<and> ar_currency am = Some (if DOLLAR \<in> set s then js ''USD''
                                    else if EURO \<in> set s then js ''EUR''
                                    else if NAIRA \<in> set s then js ''NGN'' else js ''USD''))"
  by (auto simp: extractAmount_def Let_def includes_single split: option.splits)

lemma extractAmount_total: "\<exists>am. extractAmount s = Inr am"
  using match_binds[OF binds_money, of s]
  by (auto simp: extractAmount_def Let_def split: option.splits)

lemma extractProduct_total: "\<exists>p. extractProduct sn = Inr p"
  using match_binds[OF binds_product]
  by (fastforce simp: extractProduct_def split: option.splits)

lemma processMsg_Some:
  "processMsg h m = Inr (Some c) \<Longrightarrow>
     \<exists>pfh am prod. guessProviderFromHeaders h (payload m) = Inr pfh
       \<and> hasBrand h (toLowerCase h (snippetOrEmpty m))
       \<and> hasPayment (toLowerCase h (snippetOrEmpty m))
       \<and> hasCurrencyToken (toLowerCase h (snippetOrEmpty m))
       \<and> extractAmount (snippetOrEmpty m) = Inr am
       \<and> extractProduct (snippet m) = Inr prod
       \<and> provider c = resolveProvider pfh (toLowerCase h (snippetOrEmpty m))
       \<and> product c = prod
       \<and> amount c = ar_amount am \<and> currency c = ar_currency am
       \<and> startDate c = dr_start (extractDates h (snippetOrEmpty m))
       \<and> nextBilling c = nextBillingOf h (extractDates h (snippetOrEmpty m))
       \<and> rawData c = \<lparr>messageId = msgId m, rawSnippet = snippet m\<rparr>"
  unfolding processMsg_def Let_def
  by (simp split: sum.splits if_splits) fastforce

lemma processMsg_sourceText: "processMsg h m = Inr (Some c) \<Longrightarrow> sourceText c = snippetOrEmpty m"
  by (drule processMsg_Some) (auto simp: sourceText_def snippetOrEmpty_def)

subsection \<open>Scenario A, evaluated\<close>

lemmas char_defs = js_def DOLLAR_def EURO_def NAIRA_def POUND_def isDigit_def isSpace_def
  chr_eq_def chr_ci_def asciiUpper_def asciiLower_def isLowerAscii_def isUpperAscii_def
  isAsciiLetter_def isWordChar_def wordBoundary_def ms_rep_def isDateSep_def isProductChar_def

lemmas date_defs = newDate_def Date_parse_def isoDateOnly_def digitsVal_def DaysInMonth_def
  InLeapYear_def MakeDay_def DayFromYear_def daysBeforeMonth_def msPerDay_def TimeClip_def
  utcMidnight_def

lemma lowA:
  "toLowerCase h textA = js ''your netflix subscription of $15.99 renewed on 2024-03-05''"
  by (simp add: toLowerCase_def textA_def char_defs)

lemma amountA:
  "extractAmount textA = Inr \<lparr>ar_amount = Some (Num (1599 / 100)), ar_currency = Some (js ''USD'')\<rparr>"
  by (simp add: extractAmount_def textA_def match_def moneyRegex_def parseFloat_def digitsVal_def
      char_defs)

lemma datesA:
  "extractDates h textA =
     \<lparr>dr_start = Some (ValidDate (utcMidnight 2024 3 5)),
      dr_next = Some (addDays h (ValidDate (utcMidnight 2024 3 5)) 30)\<rparr>"
  by (simp add: extractDates_def Let_def textA_def match_def isoRegex_def date_defs char_defs)

lemma productA: "extractProduct (Some textA) = Inr (Some (js ''of''))"
  by (simp add: extractProduct_def textA_def match_def productRegex_def trim_def firstLine_def
      char_defs)

lemma filterA: "hasPayment (toLowerCase h textA) \<and> hasCurrencyToken (toLowerCase h textA)"
  unfolding lowA
  by (simp add: hasPayment_def hasCurrencyToken_def subscriptionKeywords_def match_def
      filterRegex_def currencyCodes_def char_defs)

lemma providerA: "resolveProvider None (toLowerCase h textA) = js ''netflix''"
  unfolding lowA by (simp add: resolveProvider_def orElse_def knownProviders_def char_defs)

lemma lowNetflix: "toLowerCase h (js ''netflix'') = js ''netflix''"
  by (simp add: toLowerCase_def char_defs)

lemma brandA:
  assumes "js ''netflix'' \<in> set (subs h)"
  shows "hasBrand h (toLowerCase h textA)"
proof -
  have "toLowerCase h (js ''netflix'') \<in> toLowerCase h ` set (subs h)"
    using assms by (rule imageI)
  then have "js ''netflix'' \<in> set (brandKeywords h)"
    by (simp add: brandKeywords_def lowNetflix)
  moreover have "includesStr (toLowerCase h textA) (js ''netflix'')"
    unfolding lowA by (simp add: char_defs)
  ultimately show ?thesis unfolding hasBrand_def list_ex_iff by blast
qed

lemma processA:
  assumes "js ''netflix'' \<in> set (subs h)"
  shows "processMsg h (scenarioA i)
           = Inr (Some (candidateA i (addDays h (ValidDate (utcMidnight 2024 3 5)) 30)))"
proof -
  have sn: "snippetOrEmpty (scenarioA i) = textA" "snippet (scenarioA i) = Some textA"
    "payload (scenarioA i) = None" "msgId (scenarioA i) = i"
    by (simp_all add: scenarioA_def snippetOrEmpty_def)
  have g: "guessProviderFromHeaders h None = Inr None"
    by (simp add: guessProviderFromHeaders_def)
  note b = brandA[OF assms] and f1 = filterA[of h, THEN conjunct1]
    and f2 = filterA[of h, THEN conjunct2]
  show ?thesis
    unfolding processMsg_def Let_def sn g
    by (simp add: b f1 f2 amountA datesA productA providerA candidateA_def nextBillingOf_def)
qed

lemma parseA:
  assumes "js ''netflix'' \<in> set (subs h)"
  shows "parseSubscriptionsFromEmails h [scenarioA i]
           = Inr [candidateA i (addDays h (ValidDate (utcMidnight 2024 3 5)) 30)]"
  by (simp add: parseSubscriptionsFromEmails_def processA[OF assms])

lemma keyA: "keyOf (candidateA i nb) = js ''netflix::of''"
  by (simp add: keyOf_def candidateA_def js_def)

lemma parseAA:
  assumes "js ''netflix'' \<in> set (subs h)"
  shows "parseSubscriptionsFromEmails h [scenarioA i, scenarioA j]
           = Inr [candidateA i (addDays h (ValidDate (utcMidnight 2024 3 5)) 30)]"
  by (simp add: parseSubscriptionsFromEmails_def processA[OF assms] keyA)

lemma netflix_utcHost: "js ''netflix'' \<in> set (subs utcHost)"
  by (simp add: utcHost_def)

lemma netflix_dstHost: "js ''netflix'' \<in> set (subs dstHost)"
  by (simp add: dstHost_def)

lemma addDays_utcHost:
  "addDays utcHost (ValidDate (utcMidnight 2024 3 5)) 30 = ValidDate (utcMidnight 2024 4 4)"
  by (simp add: addDays_def LocalTime_def UTC_def utcHost_def date_defs)

lemma addDays_dstHost:
  "addDays dstHost (ValidDate (utcMidnight 2024 3 5)) 30 = ValidDate 1712185200000"
  by (simp add: addDays_def LocalTime_def UTC_def dstHost_def date_defs)

lemma parseA_utcHost:
  "parseSubscriptionsFromEmails utcHost [scenarioA i]
     = Inr [candidateA i (ValidDate (utcMidnight 2024 4 4))]"
  using parseA[OF netflix_utcHost] by (simp add: addDays_utcHost)

lemma sourceTextA: "sourceText (candidateA i nb) = textA"
  by (simp add: sourceText_def candidateA_def)

subsection \<open>Scenarios D and E, evaluated\<close>

lemma processMsg_eval:
  assumes "guessProviderFromHeaders h (payload m) = Inr pfh"
    and "hasBrand h (toLowerCase h (snippetOrEmpty m))"
    and "hasPayment (toLowerCase h (snippetOrEmpty m))"
    and "hasCurrencyToken (toLowerCase h (snippetOrEmpty m))"
    and "extractAmount (snippetOrEmpty m) = Inr am"
    and "extractProduct (snippet m) = Inr pr"
  shows "processMsg h m =
     Inr (Some \<lparr>provider = resolveProvider pfh (toLowerCase h (snippetOrEmpty m)),
                product = pr,
                amount = ar_amount am,
                currency = ar_currency am,
                startDate = dr_start (extractDates h (snippetOrEmpty m)),
                nextBilling = nextBillingOf h (extractDates h (snippetOrEmpty m)),
                rawData = \<lparr>messageId = msgId m, rawSnippet = snippet m\<rparr>\<rparr>)"
  by (simp add: processMsg_def Let_def assms)

lemma lowE:
  "toLowerCase h textE = js ''your netflix subscription of $15.99 renewed on 2024-13-45''"
  by (simp add: toLowerCase_def textE_def char_defs)

lemma amountE:
  "extractAmount textE = Inr \<lparr>ar_amount = Some (Num (1599 / 100)), ar_currency = Some (js ''USD'')\<rparr>"
  by (simp add: extractAmount_def textE_def match_def moneyRegex_def parseFloat_def digitsVal_def
      char_defs)

lemma datesE:
  "extractDates h textE = \<lparr>dr_start = Some InvalidDate, dr_next = Some InvalidDate\<rparr>"
  by (simp add: extractDates_def Let_def textE_def match_def isoRegex_def addDays_def date_defs char_defs)

lemma productE: "extractProduct (Some textE) = Inr (Some (js ''of''))"
  by (simp add: extractProduct_def textE_def match_def productRegex_def trim_def firstLine_def
      char_defs)

lemma filterE: "hasPayment (toLowerCase h textE) \<and> hasCurrencyToken (toLowerCase h textE)"
  unfolding lowE
  by (simp add: hasPayment_def hasCurrencyToken_def subscriptionKeywords_def match_def
      filterRegex_def currencyCodes_def char_defs)

lemma providerE: "resolveProvider None (toLowerCase h textE) = js ''netflix''"
  unfolding lowE by (simp add: resolveProvider_def orElse_def knownProviders_def char_defs)

lemma brandE: "hasBrand utcHost (toLowerCase utcHost textE)"
  unfolding lowE by (simp add: hasBrand_def brandKeywords_def utcHost_def toLowerCase_def char_defs)

lemma processE:
  "processMsg utcHost (scenarioE i)
     = Inr (Some \<lparr>provider = js ''netflix'', product = Some (js ''of''),
                  amount = Some (Num (1599 / 100)), currency = Some (js ''USD''),
                  startDate = Some InvalidDate, nextBilling = Some InvalidDate,
                  rawData = \<lparr>messageId = i, rawSnippet = Some textE\<rparr>\<rparr>)"
proof -
  have sn: "snippetOrEmpty (scenarioE i) = textE" "snippet (scenarioE i) = Some textE"
    "payload (scenarioE i) = None" "msgId (scenarioE i) = i"
    by (simp_all add: scenarioE_def snippetOrEmpty_def)
  have g: "guessProviderFromHeaders utcHost (payload (scenarioE i)) = Inr None"
    by (simp add: guessProviderFromHeaders_def sn)
  show ?thesis
    using processMsg_eval[OF g, unfolded sn, OF brandE filterE[THEN conjunct1] filterE[THEN conjunct2] amountE productE]
    by (simp add: providerE datesE nextBillingOf_def)
qed

lemma lowD:
  "toLowerCase h textD = js ''your spotify membership: premium, $9.99 charged on jan 5, 2024''"
  by (simp add: toLowerCase_def textD_def char_defs)

lemma amountD:
  "extractAmount textD = Inr \<lparr>ar_amount = Some (Num (999 / 100)), ar_currency = Some (js ''USD'')\<rparr>"
  by (simp add: extractAmount_def textD_def match_def moneyRegex_def parseFloat_def digitsVal_def
      char_defs)

lemma isoD: "match textD isoRegex = None"
  by (simp add: textD_def match_def isoRegex_def char_defs)

lemma longD: "map_option matched (match textD longDateRegex) = Some (js ''Jan 5, 2024'')"
  by (simp add: textD_def match_def longDateRegex_def char_defs)

lemma newDateD: "newDate utcHost (js ''Jan 5, 2024'') = ValidDate (utcMidnight 2024 1 5)"
  by (simp add: utcHost_def date_defs js_def)

lemma addDaysD: "addDays utcHost (ValidDate (utcMidnight 2024 1 5)) 30 = ValidDate (utcMidnight 2024 2 4)"
  by (simp add: addDays_def LocalTime_def UTC_def utcHost_def date_defs)

lemma datesD:
  "extractDates utcHost textD =
     \<lparr>dr_start = Some (ValidDate (utcMidnight 2024 1 5)),
      dr_next = Some (ValidDate (utcMidnight 2024 2 4))\<rparr>"
  using longD by (auto simp: extractDates_def Let_def isoD newDateD addDaysD split: option.splits)

lemma productD: "extractProduct (Some textD) = Inr (Some (js ''Premium''))"
  by (simp add: extractProduct_def textD_def match_def productRegex_def trim_def firstLine_def
      char_defs)

lemma filterD: "hasPayment (toLowerCase h textD) \<and> hasCurrencyToken (toLowerCase h textD)"
  unfolding lowD
  by (simp add: hasPayment_def hasCurrencyToken_def subscriptionKeywords_def match_def
      filterRegex_def currencyCodes_def char_defs)

lemma brandD: "hasBrand utcHost (toLowerCase utcHost textD)"
  unfolding lowD by (simp add: hasBrand_def brandKeywords_def utcHost_def toLowerCase_def char_defs)

lemma guessStripe: "guessProviderFromHeaders utcHost (Some stripeHeaders) = Inr (Some (js ''stripe''))"
  by (simp add: guessProviderFromHeaders_def fromValue_def stripeHeaders_def toLowerCase_def
      knownProviders_def char_defs)

lemma providerD_body: "resolveProvider None (toLowerCase h textD) = js ''spotify''"
  unfolding lowD by (simp add: resolveProvider_def orElse_def knownProviders_def char_defs)

lemma providerD_header: "resolveProvider (Some (js ''stripe'')) low = js ''stripe''"
  by (simp add: resolveProvider_def orElse_def js_def)

lemma processD_body:
  "processMsg utcHost (scenarioD i None) = Inr (Some (candidateD i (js ''spotify'')))"
proof -
  have sn: "snippetOrEmpty (scenarioD i None) = textD" "snippet (scenarioD i None) = Some textD"
    "payload (scenarioD i None) = None" "msgId (scenarioD i None) = i"
    by (simp_all add: scenarioD_def snippetOrEmpty_def)
  have g: "guessProviderFromHeaders utcHost (payload (scenarioD i None)) = Inr None"
    by (simp add: guessProviderFromHeaders_def sn)
  show ?thesis
    using processMsg_eval[OF g, unfolded sn, OF brandD filterD[THEN conjunct1] filterD[THEN conjunct2] amountD productD]
    by (simp add: providerD_body datesD nextBillingOf_def candidateD_def)
qed

lemma processD_header:
  "processMsg utcHost (scenarioD i (Some stripeHeaders)) = Inr (Some (candidateD i (js ''stripe'')))"
proof -
  have sn: "snippetOrEmpty (scenarioD i (Some stripeHeaders)) = textD" "snippet (scenarioD i (Some stripeHeaders)) = Some textD"
    "payload (scenarioD i (Some stripeHeaders)) = Some stripeHeaders" "msgId (scenarioD i (Some stripeHeaders)) = i"
    by (simp_all add: scenarioD_def snippetOrEmpty_def)
  have g: "guessProviderFromHeaders utcHost (payload (scenarioD i (Some stripeHeaders))) = Inr (Some (js ''stripe''))"
    by (simp add: guessStripe sn)
  show ?thesis
    using processMsg_eval[OF g, unfolded sn, OF brandD filterD[THEN conjunct1] filterD[THEN conjunct2] amountD productD]
    by (simp add: providerD_header datesD nextBillingOf_def candidateD_def)
qed

subsection \<open>The provider matcher\<close>

lemma firstProviderIn_find: "firstProviderIn from ps = find (\<lambda>p. includesStr from p) ps"
  by (induction ps) auto

lemma find_known_nonempty: "find P knownProviders = Some p \<Longrightarrow> p \<noteq> []"
  by (auto simp: find_Some_iff knownProviders_def js_def nth_Cons' split: if_splits)

lemma find_in_empty: "find (\<lambda>p. includesStr [] p) knownProviders = None"
  by (simp add: knownProviders_def js_def)

lemma find_empty_known: "find (\<lambda>p. p = []) knownProviders = None"
  by (simp add: knownProviders_def js_def)

lemma guess_headersOf:
  "guessProviderFromHeaders h (payload m)
     = (case findFrom h (headersOf m) of
          Inl e \<Rightarrow> Inl e
        | Inr found \<Rightarrow>
            (case fromValue h found of
               Inl e \<Rightarrow> Inl e
             | Inr from \<Rightarrow> Inr (firstProviderIn from knownProviders)))"
  by (cases "payload m")
     (simp_all add: guessProviderFromHeaders_def headersOf_def fromValue_def
        knownProviders_def js_def)

lemma findFrom_find: "findFrom h hs = Inr r \<Longrightarrow> r = find (namedFrom h) hs"
  by (induction hs) (auto simp: namedFrom_def split: jsval.splits if_splits)

lemma guess_headerProvider:
  "guessProviderFromHeaders h (payload m) = Inr r \<Longrightarrow> r = headerProvider h m"
proof -
  assume a: "guessProviderFromHeaders h (payload m) = Inr r"
  then obtain found where f: "findFrom h (headersOf m) = Inr found"
    unfolding guess_headersOf by (cases "findFrom h (headersOf m)") auto
  from a f obtain frm where v: "fromValue h found = Inr frm"
    and r: "r = firstProviderIn frm knownProviders"
    unfolding guess_headersOf by (cases "fromValue h found") auto
  from findFrom_find[OF f] have found: "found = find (namedFrom h) (headersOf m)" .
  show ?thesis
  proof (cases found)
    case None
    with v have "frm = []" by (simp add: fromValue_def)
    with r None found show ?thesis
      by (simp add: headerProvider_def firstProviderIn_find find_empty_known)
  next
    case (Some x)
    show ?thesis
    proof (cases "hvalue x")
      case Nullish
      with v Some have "frm = []" by (simp add: fromValue_def)
      with r Some found Nullish show ?thesis
        by (simp add: headerProvider_def firstProviderIn_find find_empty_known)
    next
      case (Str w)
      with v Some have "frm = toLowerCase h w" by (simp add: fromValue_def)
      with r Some found Str show ?thesis
        by (simp add: headerProvider_def firstProviderIn_find)
    next
      case Other
      with v Some show ?thesis by (simp add: fromValue_def)
    qed
  qed
qed

lemma resolve_twoTier:
  "resolveProvider (headerProvider h m) (toLowerCase h (snippetOrEmpty m)) = twoTierProvider h m"
proof -
  have 1: "\<And>p. headerProvider h m = Some p \<Longrightarrow> p \<noteq> []"
    by (auto simp: headerProvider_def split: option.splits jsval.splits dest: find_known_nonempty)
  have 2: "\<And>p. bodyProvider h m = Some p \<Longrightarrow> p \<noteq> []"
    by (auto simp: bodyProvider_def dest: find_known_nonempty)
  show ?thesis
    using 1 2
    by (auto simp: resolveProvider_def twoTierProvider_def orElse_def bodyProvider_def js_def
        split: option.splits)
qed

subsection \<open>No error on well-formed headers\<close>

lemma findFrom_total:
  "list_all (\<lambda>x. isStr (hname x)) hs \<Longrightarrow> \<exists>r. findFrom h hs = Inr r"
  by (induction hs) (auto simp: isStr_def split: jsval.splits)

lemma findFrom_member: "findFrom h hs = Inr (Some x) \<Longrightarrow> x \<in> set hs"
  by (induction hs) (auto split: jsval.splits if_splits)

lemma guess_total:
  "wellFormedHeaders m \<Longrightarrow> \<exists>r. guessProviderFromHeaders h (payload m) = Inr r"
proof -
  assume w: "wellFormedHeaders m"
  then have "list_all (\<lambda>x. isStr (hname x)) (headersOf m)"
    by (simp add: wellFormedHeaders_def list_all_iff)
  from findFrom_total[OF this, of h] obtain found where
    f: "findFrom h (headersOf m) = Inr found" by blast
  have "\<exists>frm. fromValue h found = Inr frm"
  proof (cases found)
    case None
    then show ?thesis by (simp add: fromValue_def)
  next
    case (Some x)
    with f have "x \<in> set (headersOf m)" using findFrom_member by blast
    with w have "hvalue x \<noteq> Other" by (simp add: wellFormedHeaders_def list_all_iff)
    with Some show ?thesis by (cases "hvalue x") (simp_all add: fromValue_def)
  qed
  then obtain frm where "fromValue h found = Inr frm" by blast
  with f show ?thesis unfolding guess_headersOf by simp
qed

lemma processMsg_total: "wellFormedHeaders m \<Longrightarrow> \<exists>r. processMsg h m = Inr r"
proof -
  assume "wellFormedHeaders m"
  from guess_total[OF this, of h] obtain g where g: "guessProviderFromHeaders h (payload m) = Inr g"
    by blast
  obtain am where am: "extractAmount (snippetOrEmpty m) = Inr am" using extractAmount_total by blast
  obtain pr where pr: "extractProduct (snippet m) = Inr pr" using extractProduct_total by blast
  show ?thesis by (simp add: processMsg_def Let_def g am pr)
qed

subsection \<open>The temporal extractor\<close>

lemma extractDates_selected:
  "firstDateText s = Some w \<Longrightarrow>
     extractDates h s = \<lparr>dr_start = Some (newDate h w), dr_next = Some (addDays h (newDate h w) 30)\<rparr>"
  by (auto simp: firstDateText_def extractDates_def Let_def split: option.splits)

lemma extractDates_no_match:
  "match s isoRegex = None \<Longrightarrow> match s longDateRegex = None \<Longrightarrow>
     extractDates h s = \<lparr>dr_start = None, dr_next = None\<rparr>"
  by (simp add: extractDates_def)

subsection \<open>What the filter pattern matches\<close>

lemma concat_singletons: "concat (map (\<lambda>x. [x]) xs) = xs"
  by (induction xs) auto

lemma ms_Seq_Eps: "ms (Seq r Eps) st = ms r st"
proof -
  have "ms Eps = (\<lambda>x. [x])" by (rule ext) simp
  then show ?thesis by (simp add: concat_singletons)
qed

lemma ms_lit1: "ms (lit [X]) (p, s, c) \<noteq> [] \<longleftrightarrow> (\<exists>xs. s = X # xs)"
  by (auto simp: chr_eq_def split: list.splits)

lemma ms_liti_nonempty:
  "ms (liti w) (p, u, c) \<noteq> [] \<longleftrightarrow>
     (length w \<le> length u \<and> map asciiUpper (take (length w) u) = map asciiUpper w)"
proof (induction w arbitrary: p u)
  case Nil
  show ?case by simp
next
  case (Cons x xs)
  show ?case
  proof (cases u)
    case Nil
    then show ?thesis by simp
  next
    case (Cons y ys)
    then show ?thesis using Cons.IH[of "Some y" ys] by (auto simp: chr_ci_def)
  qed
qed

lemma upper_lower_letter:
  "isLowerAscii x \<Longrightarrow> (asciiUpper y = asciiUpper x) = (asciiLower y = x)"
  by (auto simp: asciiUpper_def asciiLower_def isLowerAscii_def isUpperAscii_def)

lemma code3_match:
  assumes "length w = 3" "list_all isLowerAscii w"
  shows "(3 \<le> length u \<and> map asciiUpper (take 3 u) = map asciiUpper w) = (map asciiLower (take 3 u) = w)"
proof -
  from assms obtain a b c where w: "w = [a, b, c]" "isLowerAscii a" "isLowerAscii b" "isLowerAscii c"
    by (cases w; cases "tl w"; cases "tl (tl w)"; cases "tl (tl (tl w))") auto
  show ?thesis
  proof (cases "3 \<le> length u")
    case False
    then have "length (map asciiLower (take 3 u)) < 3" by simp
    then show ?thesis using False w by auto
  next
    case True
    then obtain x y z r where u: "u = x # y # z # r"
      by (cases u; cases "tl u"; cases "tl (tl u)") auto
    show ?thesis using w by (simp add: u upper_lower_letter)
  qed
qed

lemma ms_codes_nonempty: "ms (Grp 1 currencyCodes) (p, u, c) \<noteq> [] \<longleftrightarrow> isCode3 u"
proof -
  have l: "\<And>w. w \<in> set [js ''usd'', js ''ngn'', js ''eur'', js ''gbp''] \<Longrightarrow>
           (ms (liti w) (p, u, c) \<noteq> []) = (map asciiLower (take 3 u) = w)"
  proof -
    fix w :: jsstr
    assume "w \<in> set [js ''usd'', js ''ngn'', js ''eur'', js ''gbp'']"
    then have lw: "length w = 3" and lo: "list_all isLowerAscii w"
      by (auto simp: js_def isLowerAscii_def)
    from code3_match[OF lw lo, of u]
    show "(ms (liti w) (p, u, c) \<noteq> []) = (map asciiLower (take 3 u) = w)"
      unfolding ms_liti_nonempty lw .
  qed
  have "ms (Grp 1 currencyCodes) (p, u, c) \<noteq> [] \<longleftrightarrow> ms currencyCodes (p, u, c) \<noteq> []"
    by simp
  also have "\<dots> \<longleftrightarrow> (\<exists>w \<in> set [js ''usd'', js ''ngn'', js ''eur'', js ''gbp'']. ms (liti w) (p, u, c) \<noteq> [])"
    by (simp add: currencyCodes_def)
  also have "\<dots> \<longleftrightarrow> isCode3 u"
    unfolding isCode3_def using l by (metis (no_types, lifting))
  finally show ?thesis .
qed

lemma ms_spaceCode:
  "ms (Seq (Opt (Atom isSpace)) (Seq (Grp 1 currencyCodes) Eps)) (p, u, c) \<noteq> [] \<longleftrightarrow> spaceThenCode u"
proof -
  define G where "G = ms (Grp 1 currencyCodes)"
  have B: "ms (Seq (Grp 1 currencyCodes) Eps) = G"
    unfolding G_def by (rule ext) (rule ms_Seq_Eps)
  have G: "\<And>p u c. G (p, u, c) \<noteq> [] \<longleftrightarrow> isCode3 u"
    unfolding G_def by (rule ms_codes_nonempty)
  have S: "\<And>u. ms (Seq (Opt (Atom isSpace)) (Seq (Grp 1 currencyCodes) Eps)) (p, u, c)
             = concat (map G (ms (Opt (Atom isSpace)) (p, u, c)))"
    unfolding B[symmetric] by (rule ms.simps(3))
  show ?thesis
  proof (cases u)
    case Nil
    have "ms (Opt (Atom isSpace)) (p, [], c) = [(p, [], c)]" by simp
    then show ?thesis unfolding S Nil using G[of p "[]" c] by (simp add: spaceThenCode_def)
  next
    case (Cons x xs)
    have "ms (Opt (Atom isSpace)) (p, x # xs, c)
            = (if isSpace x then [(Some x, xs, c)] else []) @ [(p, x # xs, c)]" by simp
    then show ?thesis
      unfolding S Cons using G[of p "x # xs" c] G[of "Some x" xs c]
      by (auto simp: spaceThenCode_def)
  qed
qed

lemma concat_map_nonempty: "(concat (map f xs) \<noteq> []) = (\<exists>x \<in> set xs. f x \<noteq> [])"
  by (induction xs) auto

lemma set_ms_rep:
  "set (ms_rep P lo (Some hi) (p, s, c))
     = (\<lambda>k. (if k = 0 then p else Some (s ! (k - 1)), drop k s, c))
         ` {lo..min hi (length (takeWhile P s))}"
  by (simp add: ms_rep_def Let_def atLeastLessThanSuc_atLeastAtMost del: upt_Suc)

lemma ms_digitsCode:
  "ms (seqs [Rep isDigit 1 (Some 5), Opt (Atom isSpace), Grp 1 currencyCodes]) (p, s, c) \<noteq> []
   \<longleftrightarrow> (\<exists>k. 1 \<le> k \<and> k \<le> 5 \<and> k \<le> length (takeWhile isDigit s) \<and> spaceThenCode (drop k s))"
proof -
  define R where "R = ms (Seq (Opt (Atom isSpace)) (Seq (Grp 1 currencyCodes) Eps))"
  have R: "\<And>p u c. R (p, u, c) \<noteq> [] \<longleftrightarrow> spaceThenCode u"
    unfolding R_def by (rule ms_spaceCode)
  have "ms (seqs [Rep isDigit 1 (Some 5), Opt (Atom isSpace), Grp 1 currencyCodes]) (p, s, c)
          = concat (map R (ms_rep isDigit 1 (Some 5) (p, s, c)))"
    unfolding R_def by (simp only: seqs.simps ms.simps(3) ms.simps(6))
  then have "ms (seqs [Rep isDigit 1 (Some 5), Opt (Atom isSpace), Grp 1 currencyCodes]) (p, s, c) \<noteq> []
      \<longleftrightarrow> (\<exists>st \<in> set (ms_rep isDigit 1 (Some 5) (p, s, c)). R st \<noteq> [])"
    by (simp only: concat_map_nonempty)
  also have "\<dots> \<longleftrightarrow> (\<exists>k \<in> {1..min 5 (length (takeWhile isDigit s))}. spaceThenCode (drop k s))"
    unfolding set_ms_rep by (simp add: R)
  also have "\<dots> \<longleftrightarrow> (\<exists>k. 1 \<le> k \<and> k \<le> 5 \<and> k \<le> length (takeWhile isDigit s) \<and> spaceThenCode (drop k s))"
    by auto
  finally show ?thesis .
qed

lemma ms_filter_nonempty:
  "ms filterRegex (p, s, c) \<noteq> [] \<longleftrightarrow>
     (symbolHere s
      \<or> (\<exists>k. 1 \<le> k \<and> k \<le> 5 \<and> k \<le> length (takeWhile isDigit s) \<and> spaceThenCode (drop k s)))"
proof -
  have "ms filterRegex (p, s, c) \<noteq> [] \<longleftrightarrow>
      (ms (lit [DOLLAR]) (p, s, c) \<noteq> [] \<or> ms (lit [NAIRA]) (p, s, c) \<noteq> []
       \<or> ms (lit [EURO]) (p, s, c) \<noteq> [] \<or> ms (lit [POUND]) (p, s, c) \<noteq> []
       \<or> ms (seqs [Rep isDigit 1 (Some 5), Opt (Atom isSpace), Grp 1 currencyCodes]) (p, s, c) \<noteq> [])"
    by (simp only: filterRegex_def alts.simps ms.simps(4) append_is_Nil_conv de_Morgan_conj)
  then show ?thesis
    unfolding ms_lit1 ms_digitsCode by (auto simp: symbolHere_def split: list.splits)
qed

lemma digit_in_run: "j < length (takeWhile P t) \<Longrightarrow> P (t ! j)"
  by (metis nth_mem set_takeWhileD takeWhile_nth)

lemma tokenHere_drop:
  assumes "j < length (takeWhile isDigit t)" "spaceThenCode (drop (Suc j) t)"
  shows "tokenHere (drop j t)"
proof -
  have "j < length t" using assms(1) length_takeWhile_le[of isDigit t] by (meson less_le_trans)
  then have "drop j t = t ! j # drop (Suc j) t" by (simp add: Cons_nth_drop_Suc)
  then show ?thesis using digit_in_run[OF assms(1)] assms(2) by simp
qed

lemma numberBesideCode_drop: "tokenHere (drop j s) \<Longrightarrow> numberBesideCode s"
proof (induction s arbitrary: j)
  case Nil
  then show ?case by simp
next
  case (Cons x xs)
  show ?case
  proof (cases j)
    case 0
    with Cons.prems show ?thesis by simp
  next
    case (Suc j')
    with Cons.prems have "tokenHere (drop j' xs)" by simp
    from Cons.IH[OF this] show ?thesis by simp
  qed
qed

lemma numberBesideCode_ex: "numberBesideCode s \<Longrightarrow> \<exists>j. tokenHere (drop j s)"
proof (induction s)
  case Nil
  then show ?case by simp
next
  case (Cons x xs)
  show ?case
  proof (cases "tokenHere (x # xs)")
    case True
    then have "tokenHere (drop 0 (x # xs))" by simp
    then show ?thesis by blast
  next
    case False
    with Cons obtain j where "tokenHere (drop j xs)" by auto
    then have "tokenHere (drop (Suc j) (x # xs))" by simp
    then show ?thesis by blast
  qed
qed

lemma search_from_None_step:
  "search_from r p (x # xs) i = None \<longleftrightarrow>
     ms r (p, x # xs, Map.empty) = [] \<and> search_from r (Some x) xs (Suc i) = None"
  by (simp split: list.splits)

lemma search_filter_iff:
  "search_from filterRegex p s i \<noteq> None \<longleftrightarrow>
     (\<exists>x \<in> set s. x = DOLLAR \<or> x = NAIRA \<or> x = EURO \<or> x = POUND) \<or> numberBesideCode s"
proof (induction s arbitrary: p i)
  case Nil
  have "ms filterRegex (p, [], Map.empty) = []"
    using ms_filter_nonempty[of p "[]" Map.empty] by (simp add: symbolHere_def)
  then show ?case by simp
next
  case (Cons x xs)
  have here: "ms filterRegex (p, x # xs, Map.empty) \<noteq> [] \<Longrightarrow>
        (x = DOLLAR \<or> x = NAIRA \<or> x = EURO \<or> x = POUND) \<or> numberBesideCode (x # xs)"
  proof -
    assume "ms filterRegex (p, x # xs, Map.empty) \<noteq> []"
    then consider "symbolHere (x # xs)"
      | k where "1 \<le> k" "k \<le> length (takeWhile isDigit (x # xs))" "spaceThenCode (drop k (x # xs))"
      unfolding ms_filter_nonempty by blast
    then show ?thesis
    proof cases
      case 1
      then show ?thesis by (simp add: symbolHere_def)
    next
      case 2
      then obtain j where k: "k = Suc j" by (cases k) auto
      with 2 have "tokenHere (drop j (x # xs))" by (intro tokenHere_drop) auto
      then show ?thesis using numberBesideCode_drop by blast
    qed
  qed
  have there: "(x = DOLLAR \<or> x = NAIRA \<or> x = EURO \<or> x = POUND) \<or> tokenHere (x # xs) \<Longrightarrow>
        ms filterRegex (p, x # xs, Map.empty) \<noteq> []"
  proof -
    assume a: "(x = DOLLAR \<or> x = NAIRA \<or> x = EURO \<or> x = POUND) \<or> tokenHere (x # xs)"
    show ?thesis
    proof (cases "x = DOLLAR \<or> x = NAIRA \<or> x = EURO \<or> x = POUND")
      case True
      then show ?thesis unfolding ms_filter_nonempty by (simp add: symbolHere_def)
    next
      case False
      with a have "isDigit x" "spaceThenCode xs" by auto
      then have "1 \<le> (1::nat) \<and> (1::nat) \<le> 5 \<and> 1 \<le> length (takeWhile isDigit (x # xs))
                 \<and> spaceThenCode (drop 1 (x # xs))" by simp
      then show ?thesis unfolding ms_filter_nonempty by blast
    qed
  qed
  show ?case
    using Cons.IH[of "Some x" "Suc i"] here there search_from_None_step[of filterRegex p x xs i]
    by auto
qed

lemma hasCurrencyToken_iff: "hasCurrencyToken s = currencyLikeToken s"
  unfolding hasCurrencyToken_def match_def currencyLikeToken_def search_filter_iff by auto

subsection \<open>What the money pattern matches\<close>

lemma ms_rest_subset:
  "(p', s', c') \<in> set (ms r (p, s, c)) \<Longrightarrow> set s' \<subseteq> set s"
proof (induction r arbitrary: p s c p' s' c')
  case (Atom P)
  then show ?case by (auto split: list.splits if_splits)
next
  case (Seq a b)
  from Seq.prems obtain p1 s1 c1 where
    1: "(p1, s1, c1) \<in> set (ms a (p, s, c))" and 2: "(p', s', c') \<in> set (ms b (p1, s1, c1))"
    by auto
  from Seq.IH(1)[OF 1] Seq.IH(2)[OF 2] show ?case by blast
next
  case (Opt r)
  from Opt.prems have "(p', s', c') \<in> set (ms r (p, s, c)) \<or> s' = s" by auto
  then show ?case using Opt.IH by blast
next
  case (Rep P lo hi)
  then show ?case by (auto simp: ms_rep_def Let_def dest: in_set_dropD)
next
  case (Grp k r)
  from Grp.prems obtain c0 where "(p', s', c0) \<in> set (ms r (p, s, c))" by auto
  then show ?case by (rule Grp.IH)
next
  case WordB
  then show ?case by (auto split: if_splits)
next
  case (Alt a b)
  from Alt.prems have "(p', s', c') \<in> set (ms a (p, s, c)) \<or> (p', s', c') \<in> set (ms b (p, s, c))"
    by simp
  then show ?case using Alt.IH by blast
next
  case Eps
  then show ?case by simp
qed

lemma ms_rep_no_run: "\<not> (\<exists>x \<in> set s. P x) \<Longrightarrow> 0 < lo \<Longrightarrow> ms_rep P lo hi (p, s, c) = []"
proof -
  assume a: "\<not> (\<exists>x \<in> set s. P x)" and lo: "0 < lo"
  have "takeWhile P s = []" using a by (cases s) auto
  then show ?thesis using lo by (simp add: ms_rep_def Let_def split: option.splits)
qed

lemma ms_Seq_empty: "(ms (Seq a b) st = []) = (\<forall>st1 \<in> set (ms a st). ms b st1 = [])"
  by simp

lemma ms_money_no_digit:
  assumes "\<not> (\<exists>x \<in> set s. isDigit x)"
  shows "ms moneyRegex (p, s, c) = []"
proof -
  define A where "A = Opt (alts (liti (js ''USD'')) [lit [DOLLAR], liti (js ''EUR''), lit [EURO],
                                      liti (js ''NGN''), lit [NAIRA]])"
  define B where "B = Opt (Atom isSpace)"
  define GY where "GY = Seq (Grp 1 (Seq (Rep isDigit 1 None)
                 (Opt (Seq (Atom (\<lambda>c. c = 46 \<or> c = 44)) (Rep isDigit 1 (Some 2))))))
      (seqs [Opt (Atom isSpace),
      Opt (alts (liti (js ''USD'')) [liti (js ''EUR''), liti (js ''NGN''), lit [NAIRA]])])"
  have m: "moneyRegex = Seq A (Seq B GY)"
    unfolding moneyRegex_def A_def B_def GY_def by simp
  have nodig: "\<And>p u c. set u \<subseteq> set s \<Longrightarrow> ms GY (p, u, c) = []"
  proof -
    fix p u c assume "set u \<subseteq> set s"
    then have "\<not> (\<exists>x \<in> set u. isDigit x)" using assms by blast
    then have "ms_rep isDigit 1 None (p, u, c) = []" by (rule ms_rep_no_run) simp
    then show "ms GY (p, u, c) = []" unfolding GY_def by simp
  qed
  show ?thesis
    unfolding m ms_Seq_empty
  proof (intro ballI)
    fix st1 st2
    assume 1: "st1 \<in> set (ms A (p, s, c))" and 2: "st2 \<in> set (ms B st1)"
    obtain p1 s1 c1 where st1: "st1 = (p1, s1, c1)" by (cases st1) auto
    obtain p2 s2 c2 where st2: "st2 = (p2, s2, c2)" by (cases st2) auto
    from ms_rest_subset[OF 1[unfolded st1]] ms_rest_subset[OF 2[unfolded st1 st2]]
    have "set s2 \<subseteq> set s" by blast
    from nodig[OF this] show "ms GY st2 = []" unfolding st2 .
  qed
qed

lemma ms_Opt_self: "(p, s, c) \<in> set (ms (Opt a) (p, s, c))"
  by simp

lemma ms_Seq_nonempty: "st1 \<in> set (ms a st) \<Longrightarrow> ms b st1 \<noteq> [] \<Longrightarrow> ms (Seq a b) st \<noteq> []"
  by auto

lemma ms_money_digit:
  assumes "isDigit x"
  shows "ms moneyRegex (p, x # xs, c) \<noteq> []"
proof -
  define A where "A = Opt (alts (liti (js ''USD'')) [lit [DOLLAR], liti (js ''EUR''), lit [EURO],
                                      liti (js ''NGN''), lit [NAIRA]])"
  define B where "B = Opt (Atom isSpace)"
  define F where "F = Opt (Seq (Atom (\<lambda>c. c = 46 \<or> c = 44)) (Rep isDigit 1 (Some 2)))"
  define C where "C = Opt (alts (liti (js ''USD'')) [liti (js ''EUR''), liti (js ''NGN''), lit [NAIRA]])"
  have m: "moneyRegex = Seq A (Seq B (Seq (Grp 1 (Seq (Rep isDigit 1 None) F)) (Seq B (Seq C Eps))))"
    unfolding moneyRegex_def A_def B_def F_def C_def by simp
  have selfA: "\<And>p s c. (p, s, c) \<in> set (ms A (p, s, c))" unfolding A_def by (rule ms_Opt_self)
  have selfB: "\<And>p s c. (p, s, c) \<in> set (ms B (p, s, c))" unfolding B_def by (rule ms_Opt_self)
  have selfC: "\<And>p s c. (p, s, c) \<in> set (ms C (p, s, c))" unfolding C_def by (rule ms_Opt_self)
  have selfF: "\<And>p s c. (p, s, c) \<in> set (ms F (p, s, c))" unfolding F_def by (rule ms_Opt_self)
  have tail: "\<And>st. ms (Seq B (Seq C Eps)) st \<noteq> []"
  proof -
    fix st :: mstate
    obtain p s c where st: "st = (p, s, c)" by (cases st) auto
    have "ms (Seq C Eps) (p, s, c) \<noteq> []"
      unfolding ms_Seq_Eps using selfC by (metis empty_iff empty_set)
    then show "ms (Seq B (Seq C Eps)) st \<noteq> []"
      unfolding st by (rule ms_Seq_nonempty[OF selfB])
  qed
  have run: "ms_rep isDigit 1 None (p, x # xs, c) \<noteq> []"
    using assms by (simp add: ms_rep_def Let_def del: upt_Suc)
  then obtain st1 where st1: "st1 \<in> set (ms (Rep isDigit 1 None) (p, x # xs, c))"
    using hd_in_set by (metis ms.simps(6))
  obtain p1 s1 c1 where st1eq: "st1 = (p1, s1, c1)" by (cases st1) auto
  have "ms F st1 \<noteq> []" unfolding st1eq using selfF by (metis empty_iff empty_set)
  from ms_Seq_nonempty[OF st1 this] have "ms (Seq (Rep isDigit 1 None) F) (p, x # xs, c) \<noteq> []" .
  then have "ms (Grp 1 (Seq (Rep isDigit 1 None) F)) (p, x # xs, c) \<noteq> []"
    by (simp only: ms.simps(7) map_is_Nil_conv not_False_eq_True)
  then obtain st2 where st2: "st2 \<in> set (ms (Grp 1 (Seq (Rep isDigit 1 None) F)) (p, x # xs, c))"
    using hd_in_set by blast
  have g: "ms (Seq (Grp 1 (Seq (Rep isDigit 1 None) F)) (Seq B (Seq C Eps))) (p, x # xs, c) \<noteq> []"
    by (rule ms_Seq_nonempty[OF st2 tail])
  have b: "ms (Seq B (Seq (Grp 1 (Seq (Rep isDigit 1 None) F)) (Seq B (Seq C Eps)))) (p, x # xs, c) \<noteq> []"
    by (rule ms_Seq_nonempty[OF selfB g])
  show ?thesis unfolding m by (rule ms_Seq_nonempty[OF selfA b])
qed

lemma search_from_all_empty:
  "(\<And>p t. set t \<subseteq> set s \<Longrightarrow> ms r (p, t, Map.empty) = []) \<Longrightarrow> search_from r p s i = None"
proof (induction s arbitrary: p i)
  case Nil
  then show ?case by simp
next
  case (Cons x xs)
  have "ms r (p, x # xs, Map.empty) = []" by (rule Cons.prems) simp
  moreover have "search_from r (Some x) xs (Suc i) = None"
    by (rule Cons.IH) (rule Cons.prems, auto)
  ultimately show ?case by simp
qed

lemma search_money_digit:
  "\<exists>x \<in> set s. isDigit x \<Longrightarrow> search_from moneyRegex p s i \<noteq> None"
proof (induction s arbitrary: p i)
  case Nil
  then show ?case by simp
next
  case (Cons x xs)
  show ?case
  proof (cases "isDigit x")
    case True
    from ms_money_digit[OF this, of p xs Map.empty] show ?thesis
      by (cases "ms moneyRegex (p, x # xs, Map.empty)") auto
  next
    case False
    with Cons.prems have "\<exists>x \<in> set xs. isDigit x" by auto
    from Cons.IH[OF this, of "Some x" "Suc i"] show ?thesis
      by (cases "ms moneyRegex (p, x # xs, Map.empty)") auto
  qed
qed

lemma money_match_iff_digit: "match s moneyRegex \<noteq> None \<longleftrightarrow> (\<exists>x \<in> set s. isDigit x)"
proof
  assume "match s moneyRegex \<noteq> None"
  show "\<exists>x \<in> set s. isDigit x"
  proof (rule ccontr)
    assume n: "\<not> (\<exists>x \<in> set s. isDigit x)"
    have "search_from moneyRegex None s 0 = None"
    proof (rule search_from_all_empty)
      fix p t assume "set t \<subseteq> set s"
      with n have "\<not> (\<exists>x \<in> set t. isDigit x)" by blast
      then show "ms moneyRegex (p, t, Map.empty) = []" by (rule ms_money_no_digit)
    qed
    with \<open>match s moneyRegex \<noteq> None\<close> show False by (simp add: match_def)
  qed
next
  assume "\<exists>x \<in> set s. isDigit x"
  then show "match s moneyRegex \<noteq> None" unfolding match_def by (rule search_money_digit)
qed

subsection \<open>The amount is a number\<close>

lemma ms_groupFree_caps:
  "groupFree r \<Longrightarrow> (p', s', c') \<in> set (ms r (p, s, c)) \<Longrightarrow> c' = c"
proof (induction r arbitrary: p s c p' s' c')
  case (Atom P)
  then show ?case by (auto split: list.splits if_splits)
next
  case (Seq a b)
  from Seq.prems(2) obtain p1 s1 c1 where
    1: "(p1, s1, c1) \<in> set (ms a (p, s, c))" and 2: "(p', s', c') \<in> set (ms b (p1, s1, c1))"
    by auto
  from Seq.prems(1) have ga: "groupFree a" and gb: "groupFree b" by simp_all
  from Seq.IH(1)[OF ga 1] Seq.IH(2)[OF gb 2] show ?case by simp
next
  case (Alt a b)
  from Alt.prems(2) have "(p', s', c') \<in> set (ms a (p, s, c)) \<or> (p', s', c') \<in> set (ms b (p, s, c))"
    by simp
  then show ?case using Alt.IH Alt.prems(1) by auto
next
  case (Opt r)
  from Opt.prems(2) have "(p', s', c') \<in> set (ms r (p, s, c)) \<or> c' = c" by auto
  then show ?case using Opt.IH Opt.prems(1) by auto
next
  case (Rep P lo hi)
  then show ?case by (auto simp: ms_rep_def Let_def)
next
  case (Grp k r)
  then show ?case by simp
next
  case WordB
  then show ?case by (auto split: if_splits)
next
  case Eps
  then show ?case by simp
qed

lemma ms_Seq_elim:
  "st' \<in> set (ms (Seq a b) st) \<Longrightarrow> \<exists>st1. st1 \<in> set (ms a st) \<and> st' \<in> set (ms b st1)"
  by auto

lemma ms_Grp_elim:
  "(p', s', c') \<in> set (ms (Grp n a) (p, s, c)) \<Longrightarrow>
     \<exists>c0. (p', s', c0) \<in> set (ms a (p, s, c)) \<and> c' = c0(n \<mapsto> take (length s - length s') s)"
  by auto

lemma ms_rep_elim:
  "(p1, s1, c1) \<in> set (ms_rep P lo hi (p, s, c)) \<Longrightarrow>
     \<exists>k. lo \<le> k \<and> k \<le> length (takeWhile P s) \<and> s1 = drop k s \<and> c1 = c"
proof -
  assume a: "(p1, s1, c1) \<in> set (ms_rep P lo hi (p, s, c))"
  define n where "n = (case hi of None \<Rightarrow> length (takeWhile P s)
                       | Some h \<Rightarrow> min h (length (takeWhile P s)))"
  have n: "n \<le> length (takeWhile P s)" by (simp add: n_def split: option.splits)
  from a have "(p1, s1, c1) \<in> (\<lambda>k. (if k = 0 then p else Some (s ! (k - 1)), drop k s, c))
                               ` set (rev [lo..<Suc n])"
    by (simp add: ms_rep_def Let_def n_def del: upt_Suc)
  then obtain k where k: "lo \<le> k" "k \<le> n" "s1 = drop k s" "c1 = c" by auto
  from k(2) n have "k \<le> length (takeWhile P s)" by (rule le_trans)
  with k show ?thesis by blast
qed

lemma ms_rest_suffix:
  "(p', s', c') \<in> set (ms r (p, s, c)) \<Longrightarrow> \<exists>pre. s = pre @ s'"
proof (induction r arbitrary: p s c p' s' c')
  case (Atom P)
  then show ?case by (auto split: list.splits if_splits)
next
  case (Seq a b)
  from Seq.prems obtain p1 s1 c1 where
    1: "(p1, s1, c1) \<in> set (ms a (p, s, c))" and 2: "(p', s', c') \<in> set (ms b (p1, s1, c1))"
    by auto
  from Seq.IH(1)[OF 1] Seq.IH(2)[OF 2] show ?case by (metis append.assoc)
next
  case (Alt a b)
  from Alt.prems have "(p', s', c') \<in> set (ms a (p, s, c)) \<or> (p', s', c') \<in> set (ms b (p, s, c))"
    by simp
  then show ?case using Alt.IH by blast
next
  case (Opt r)
  from Opt.prems have "(p', s', c') \<in> set (ms r (p, s, c)) \<or> s' = s" by auto
  then show ?case using Opt.IH by (metis append_Nil)
next
  case (Rep P lo hi)
  then have "(p', s', c') \<in> set (ms_rep P lo hi (p, s, c))" by simp
  from ms_rep_elim[OF this] obtain k where "s' = drop k s" by blast
  then have "s = take k s @ s'" by simp
  then show ?case by blast
next
  case (Grp k r)
  from Grp.prems obtain c0 where "(p', s', c0) \<in> set (ms r (p, s, c))" by auto
  then show ?case by (rule Grp.IH)
next
  case WordB
  then show ?case by (auto split: if_splits)
next
  case Eps
  then show ?case by simp
qed

lemma ms_number_group:
  assumes "(p', s', c') \<in> set (ms (Grp 1 (Seq (Rep isDigit 1 None) X)) (p, s, c))"
  shows "\<exists>g. c' 1 = Some g \<and> g \<noteq> [] \<and> isDigit (hd g)"
proof -
  from ms_Grp_elim[OF assms] obtain c0 where
    in0: "(p', s', c0) \<in> set (ms (Seq (Rep isDigit 1 None) X) (p, s, c))"
    and c': "c' = c0(1 \<mapsto> take (length s - length s') s)"
    by blast
  from ms_Seq_elim[OF in0] obtain st1 where
    r0: "st1 \<in> set (ms (Rep isDigit 1 None) (p, s, c))"
    and x0: "(p', s', c0) \<in> set (ms X st1)"
    by blast
  obtain p1 s1 c1 where st1: "st1 = (p1, s1, c1)" by (cases st1) auto
  from r0 have r: "(p1, s1, c1) \<in> set (ms_rep isDigit 1 None (p, s, c))" unfolding st1 by simp
  from x0 have x: "(p', s', c0) \<in> set (ms X (p1, s1, c1))" unfolding st1 .
  from ms_rep_elim[OF r] obtain k where k: "1 \<le> k" "k \<le> length (takeWhile isDigit s)" "s1 = drop k s"
    by blast
  from k have run: "takeWhile isDigit s \<noteq> []" by auto
  then obtain d ds where s: "s = d # ds" and d: "isDigit d"
    by (cases s) (auto split: if_splits)
  from ms_rest_suffix[OF x] obtain pre where "s1 = pre @ s'" by blast
  then have "length s' \<le> length s1" by simp
  also have "length s1 < length s" using k s by (simp add: k(3))
  finally have "0 < length s - length s'" by simp
  then have "take (length s - length s') s \<noteq> [] \<and> hd (take (length s - length s') s) = d"
    using s by (cases "length s - length s'") auto
  then show ?thesis using c' d by simp
qed

lemma ms_money_group:
  assumes "(p', s', c') \<in> set (ms moneyRegex (p, s, c))"
  shows "\<exists>g. c' 1 = Some g \<and> g \<noteq> [] \<and> isDigit (hd g)"
proof -
  define A where "A = Opt (alts (liti (js ''USD'')) [lit [DOLLAR], liti (js ''EUR''), lit [EURO],
                                      liti (js ''NGN''), lit [NAIRA]])"
  define B where "B = Opt (Atom isSpace)"
  define X where "X = Opt (Seq (Atom (\<lambda>c. c = 46 \<or> c = 44)) (Rep isDigit 1 (Some 2)))"
  define T where "T = seqs [Opt (Atom isSpace),
      Opt (alts (liti (js ''USD'')) [liti (js ''EUR''), liti (js ''NGN''), lit [NAIRA]])]"
  have m: "moneyRegex = Seq A (Seq B (Seq (Grp 1 (Seq (Rep isDigit 1 None) X)) T))"
    unfolding moneyRegex_def A_def B_def X_def T_def by simp
  have gT: "groupFree T" unfolding T_def by (simp add: js_def)
  from ms_Seq_elim[OF assms[unfolded m]] obtain st1 where
    "(p', s', c') \<in> set (ms (Seq B (Seq (Grp 1 (Seq (Rep isDigit 1 None) X)) T)) st1)"
    by blast
  from ms_Seq_elim[OF this] obtain st2 where
    "(p', s', c') \<in> set (ms (Seq (Grp 1 (Seq (Rep isDigit 1 None) X)) T) st2)"
    by blast
  from ms_Seq_elim[OF this] obtain st3 where
    3: "st3 \<in> set (ms (Grp 1 (Seq (Rep isDigit 1 None) X)) st2)"
    and 4: "(p', s', c') \<in> set (ms T st3)"
    by blast
  obtain p2 s2 c2 where st2: "st2 = (p2, s2, c2)" by (cases st2) auto
  obtain p3 s3 c3 where st3: "st3 = (p3, s3, c3)" by (cases st3) auto
  from ms_number_group[OF 3[unfolded st2 st3]] obtain g where
    g: "c3 1 = Some g" "g \<noteq> []" "isDigit (hd g)" by blast
  from ms_groupFree_caps[OF gT 4[unfolded st3]] have "c' = c3" .
  with g show ?thesis by simp
qed

lemma match_money_group:
  assumes "match s moneyRegex = Some m"
  shows "\<exists>g. groups m 1 = Some g \<and> g \<noteq> [] \<and> isDigit (hd g)"
  using search_from_state[OF assms[unfolded match_def]] ms_money_group by metis

lemma parseFloat_digit_head:
  assumes "g \<noteq> []" "isDigit (hd g)"
  shows "\<exists>v. parseFloat (replaceFirstComma g) = Num v"
proof -
  from assms obtain d ds where g: "g = d # ds" "isDigit d" by (cases g) auto
  then have "d \<noteq> 44" by (auto simp: isDigit_def)
  then have "replaceFirstComma g = d # replaceFirstComma ds" using g by simp
  then have "takeWhile isDigit (replaceFirstComma g) \<noteq> []" using g by simp
  then show ?thesis by (auto simp: parseFloat_def Let_def split: list.splits)
qed

lemma extractAmount_number:
  "extractAmount s = Inr am \<Longrightarrow> ar_amount am \<noteq> Some NaN"
proof -
  assume a: "extractAmount s = Inr am"
  show ?thesis
  proof (cases "match s moneyRegex")
    case None
    with a show ?thesis by (auto simp: extractAmount_def)
  next
    case (Some m)
    from match_money_group[OF Some] obtain g where g: "groups m 1 = Some g" "g \<noteq> []" "isDigit (hd g)"
      by blast
    from parseFloat_digit_head[OF g(2,3)] obtain v where "parseFloat (replaceFirstComma g) = Num v"
      by blast
    with a Some g(1) show ?thesis by (auto simp: extractAmount_def Let_def)
  qed
qed

subsection \<open>The candidate filter\<close>

lemma candidateFilter_iff:
  "candidateFilter h text
     = (hasBrand h (toLowerCase h text) \<and> hasPayment (toLowerCase h text)
        \<and> hasCurrencyToken (toLowerCase h text))"
  by (simp add: candidateFilter_def hasBrand_def hasPayment_def brandKeywords_def
      hasCurrencyToken_iff list_ex_iff)

lemma processMsg_rejects:
  assumes "wellFormedHeaders m" "\<not> candidateFilter h (snippetOrEmpty m)"
  shows "processMsg h m = Inr None"
proof -
  from guess_total[OF assms(1), of h] obtain g where
    g: "guessProviderFromHeaders h (payload m) = Inr g" by blast
  from assms(2) show ?thesis
    unfolding candidateFilter_iff by (auto simp: processMsg_def Let_def g)
qed

lemma processMsg_accepts:
  "processMsg h m = Inr (Some c) \<Longrightarrow> candidateFilter h (snippetOrEmpty m)"
  unfolding candidateFilter_iff by (drule processMsg_Some) blast

lemma perMessage_filter:
  "list_all wellFormedHeaders msgs \<Longrightarrow>
     perMessage h (filter (\<lambda>m. candidateFilter h (snippetOrEmpty m)) msgs) = perMessage h msgs"
proof (induction msgs)
  case Nil
  show ?case by simp
next
  case (Cons m msgs)
  then have ih: "perMessage h (filter (\<lambda>m. candidateFilter h (snippetOrEmpty m)) msgs)
                   = perMessage h msgs" and n: "wellFormedHeaders m" by simp_all
  show ?case
  proof (cases "candidateFilter h (snippetOrEmpty m)")
    case True
    then show ?thesis using ih by (simp add: perMessage_def)
  next
    case False
    from processMsg_rejects[OF n False] show ?thesis using ih False by (simp add: perMessage_def)
  qed
qed

lemma parse_wellformed:
  assumes "list_all wellFormedHeaders msgs"
  shows "parseSubscriptionsFromEmails h msgs = Inr (keepFirst {} (perMessage h msgs))"
proof -
  from assms have t: "\<forall>m \<in> set msgs. \<exists>r. processMsg h m = Inr r"
    using processMsg_total by (auto simp: list_all_iff)
  from collect_total[OF t, of "[]"] have "collect h msgs [] = Inr (perMessage h msgs)" by simp
  then show ?thesis by (simp add: parseSubscriptionsFromEmails_def dedupe_keepFirst)
qed

subsection \<open>Scenario B and the nameless header, evaluated\<close>

lemma lowB: "toLowerCase h textB = js ''your netflix subscription was renewed''"
  by (simp add: toLowerCase_def textB_def char_defs)

lemma no_token_B: "\<not> currencyLikeToken (toLowerCase h textB)"
  unfolding lowB by (simp add: currencyLikeToken_def char_defs)

lemma named_B: "wellFormedHeaders (scenarioB i)"
  by (simp add: wellFormedHeaders_def headersOf_def isStr_def scenarioB_def stripeHeaders_def)

lemma text_B: "snippetOrEmpty (scenarioB i) = textB"
  by (simp add: snippetOrEmpty_def scenarioB_def)



lemma keyD: "keyOf (candidateD i prov) = prov @ js ''::Premium''"
  by (simp add: keyOf_def candidateD_def js_def)

lemma named_D: "wellFormedHeaders (scenarioD i (Some stripeHeaders))"
  by (simp add: wellFormedHeaders_def headersOf_def isStr_def scenarioD_def stripeHeaders_def)

lemma named_A: "wellFormedHeaders (scenarioA i)"
  by (simp add: wellFormedHeaders_def headersOf_def scenarioA_def)

lemma processA_utcHost:
  "processMsg utcHost (scenarioA i) = Inr (Some (candidateA i (ValidDate (utcMidnight 2024 4 4))))"
  using processA[OF netflix_utcHost] by (simp add: addDays_utcHost)

lemma firstDateText_D: "firstDateText textD = Some (js ''Jan 5, 2024'')"
  using longD by (simp add: firstDateText_def isoD)

subsection \<open>The keys of the output\<close>

lemma keepFirst_keys: "keyOf ` set (keepFirst seen rs) = keyOf ` set rs - seen"
  by (induction rs arbitrary: seen) auto

lemma keyOf_explicit:
  "keyOf = (\<lambda>c. provider c @ js ''::'' @ (case product c of None \<Rightarrow> js ''unknown'' | Some p \<Rightarrow> p))"
  by (rule ext) (simp add: keyOf_def)

subsection \<open>A message that passes the filter\<close>

lemma processMsg_passes:
  assumes "wellFormedHeaders m" "candidateFilter h (snippetOrEmpty m)"
  shows "\<exists>c. processMsg h m = Inr (Some c)"
proof -
  from guess_total[OF assms(1), of h] obtain g where
    g: "guessProviderFromHeaders h (payload m) = Inr g" by blast
  obtain am where am: "extractAmount (snippetOrEmpty m) = Inr am" using extractAmount_total by blast
  obtain pr where pr: "extractProduct (snippet m) = Inr pr" using extractProduct_total by blast
  from assms(2) have f: "hasBrand h (toLowerCase h (snippetOrEmpty m))"
    "hasPayment (toLowerCase h (snippetOrEmpty m))"
    "hasCurrencyToken (toLowerCase h (snippetOrEmpty m))"
    unfolding candidateFilter_iff by simp_all
  from processMsg_eval[OF g f am pr] show ?thesis by blast
qed

lemma extractProduct_no_match:
  "match (snippetOrEmpty m) productRegex = None \<Longrightarrow> extractProduct (snippet m) = Inr None"
  by (cases "snippet m") (simp_all add: extractProduct_def snippetOrEmpty_def)

text \<open>The filter is a gate: a candidate comes only from a text that passes it, and in a
  batch with well-formed headers the messages that fail it can be left out.\<close>

lemma filter_gate:
  "(parseSubscriptionsFromEmails h msgs = Inr out \<and> c \<in> set out
      \<longrightarrow> candidateFilter h (sourceText c))
   \<and> (processMsg h m = Inr (Some c') \<longrightarrow> candidateFilter h (snippetOrEmpty m))
   \<and> (wellFormedHeaders m \<and> \<not> candidateFilter h (snippetOrEmpty m) \<longrightarrow> processMsg h m = Inr None)
   \<and> (list_all wellFormedHeaders msgs \<longrightarrow>
        parseSubscriptionsFromEmails h (filter (\<lambda>m. candidateFilter h (snippetOrEmpty m)) msgs)
          = parseSubscriptionsFromEmails h msgs)"
proof (intro conjI impI)
  assume "parseSubscriptionsFromEmails h msgs = Inr out \<and> c \<in> set out"
  then obtain m0 where m0: "processMsg h m0 = Inr (Some c)" using parse_source by blast
  from processMsg_accepts[OF m0] processMsg_sourceText[OF m0]
  show "candidateFilter h (sourceText c)" by simp
next
  assume "processMsg h m = Inr (Some c')"
  then show "candidateFilter h (snippetOrEmpty m)" by (rule processMsg_accepts)
next
  assume "wellFormedHeaders m \<and> \<not> candidateFilter h (snippetOrEmpty m)"
  then show "processMsg h m = Inr None" using processMsg_rejects by blast
next
  assume n: "list_all wellFormedHeaders msgs"
  then have n': "list_all wellFormedHeaders (filter (\<lambda>m. candidateFilter h (snippetOrEmpty m)) msgs)"
    by (simp add: list_all_iff)
  show "parseSubscriptionsFromEmails h (filter (\<lambda>m. candidateFilter h (snippetOrEmpty m)) msgs)
          = parseSubscriptionsFromEmails h msgs"
    unfolding parse_wellformed[OF n] parse_wellformed[OF n'] perMessage_filter[OF n] ..
qed

text \<open>The dates of a candidate whose settled date text parses to a valid date.\<close>

lemma dates_of_selected_text:
  "processMsg h m = Inr (Some c) \<Longrightarrow> firstDateText (snippetOrEmpty m) = Some w \<Longrightarrow>
   newDate h w = ValidDate t \<Longrightarrow>
     startDate c = Some (ValidDate t)
   \<and> nextBilling c = Some (addDays h (ValidDate t) 30)
   \<and> addDays h (ValidDate t) 30
       = TimeClip (t + tzaUTC h t + 30 * msPerDay - tzaLocal h (t + tzaUTC h t + 30 * msPerDay))"
proof -
  assume p: "processMsg h m = Inr (Some c)" and f: "firstDateText (snippetOrEmpty m) = Some w"
    and v: "newDate h w = ValidDate t"
  from processMsg_Some[OF p] have
    "startDate c = dr_start (extractDates h (snippetOrEmpty m))"
    "nextBilling c = nextBillingOf h (extractDates h (snippetOrEmpty m))" by auto
  then show ?thesis
    unfolding extractDates_selected[OF f] v
    by (simp add: nextBillingOf_def addDays_def LocalTime_def UTC_def)
qed

subsection \<open>Scenario G, evaluated\<close>

lemma lowG:
  "toLowerCase h textG = js ''your netflix subscription of $15.99, ref 2024-13-45, due jan 5, 2024''"
  by (simp add: toLowerCase_def textG_def char_defs)

lemma amountG:
  "extractAmount textG = Inr \<lparr>ar_amount = Some (Num (1599 / 100)), ar_currency = Some (js ''USD'')\<rparr>"
  by (simp add: extractAmount_def textG_def match_def moneyRegex_def parseFloat_def digitsVal_def
      char_defs)

lemma isoG: "map_option matched (match textG isoRegex) = Some (js ''2024-13-45'')"
  by (simp add: textG_def match_def isoRegex_def char_defs)

lemma newDateG: "newDate h (js ''2024-13-45'') = InvalidDate"
  by (simp add: date_defs char_defs)

lemma datesG:
  "extractDates h textG = \<lparr>dr_start = Some InvalidDate, dr_next = Some InvalidDate\<rparr>"
  by (simp add: extractDates_def Let_def textG_def match_def isoRegex_def addDays_def date_defs char_defs)

lemma longG: "map_option matched (match textG longDateRegex) = Some (js ''Jan 5, 2024'')"
  by (simp add: textG_def match_def longDateRegex_def char_defs)

lemma productG: "extractProduct (Some textG) = Inr (Some (js ''of''))"
  by (simp add: extractProduct_def textG_def match_def productRegex_def trim_def firstLine_def
      char_defs)

lemma filterG: "hasPayment (toLowerCase h textG) \<and> hasCurrencyToken (toLowerCase h textG)"
  unfolding lowG
  by (simp add: hasPayment_def hasCurrencyToken_def subscriptionKeywords_def match_def
      filterRegex_def currencyCodes_def char_defs)

lemma providerG: "resolveProvider None (toLowerCase h textG) = js ''netflix''"
  unfolding lowG by (simp add: resolveProvider_def orElse_def knownProviders_def char_defs)

lemma brandG: "hasBrand utcHost (toLowerCase utcHost textG)"
  unfolding lowG by (simp add: hasBrand_def brandKeywords_def utcHost_def toLowerCase_def char_defs)

lemma processG:
  "processMsg utcHost (scenarioG i)
     = Inr (Some \<lparr>provider = js ''netflix'', product = Some (js ''of''),
                  amount = Some (Num (1599 / 100)), currency = Some (js ''USD''),
                  startDate = Some InvalidDate, nextBilling = Some InvalidDate,
                  rawData = \<lparr>messageId = i, rawSnippet = Some textG\<rparr>\<rparr>)"
proof -
  have sn: "snippetOrEmpty (scenarioG i) = textG" "snippet (scenarioG i) = Some textG"
    "payload (scenarioG i) = None" "msgId (scenarioG i) = i"
    by (simp_all add: scenarioG_def snippetOrEmpty_def)
  have g: "guessProviderFromHeaders utcHost (payload (scenarioG i)) = Inr None"
    by (simp add: guessProviderFromHeaders_def sn)
  show ?thesis
    using processMsg_eval[OF g, unfolded sn, OF brandG filterG[THEN conjunct1] filterG[THEN conjunct2] amountG productG]
    by (simp add: providerG datesG nextBillingOf_def)
qed

subsection \<open>Scenario F, evaluated\<close>

lemma lowF: "toLowerCase h textF = js ''hulu payment due: $''"
  by (simp add: toLowerCase_def textF_def char_defs)

lemma amountF: "extractAmount textF = Inr \<lparr>ar_amount = None, ar_currency = None\<rparr>"
  by (simp add: extractAmount_def textF_def match_def moneyRegex_def char_defs)

lemma isoF: "match textF isoRegex = None"
  by (simp add: textF_def match_def isoRegex_def char_defs)

lemma longF: "match textF longDateRegex = None"
  by (simp add: textF_def match_def longDateRegex_def char_defs)

lemma noProductF: "match textF productRegex = None"
  by (simp add: textF_def match_def productRegex_def char_defs)

lemma filterF: "hasPayment (toLowerCase h textF) \<and> hasCurrencyToken (toLowerCase h textF)"
  unfolding lowF
  by (simp add: hasPayment_def hasCurrencyToken_def subscriptionKeywords_def match_def
      filterRegex_def currencyCodes_def char_defs)

lemma brandF: "hasBrand huluHost (toLowerCase huluHost textF)"
  unfolding lowF
  by (simp add: hasBrand_def brandKeywords_def huluHost_def utcHost_def toLowerCase_def char_defs)

lemma guessHulu: "guessProviderFromHeaders huluHost (Some huluHeaders) = Inr None"
  by (simp add: guessProviderFromHeaders_def fromValue_def huluHeaders_def toLowerCase_def
      knownProviders_def char_defs)

lemma providerF: "resolveProvider None (toLowerCase h textF) = js ''unknown''"
  unfolding lowF by (simp add: resolveProvider_def orElse_def knownProviders_def char_defs)

lemma processF: "processMsg huluHost (scenarioF i) = Inr (Some (candidateF i))"
proof -
  have sn: "snippetOrEmpty (scenarioF i) = textF" "snippet (scenarioF i) = Some textF"
    "payload (scenarioF i) = Some huluHeaders" "msgId (scenarioF i) = i"
    by (simp_all add: scenarioF_def snippetOrEmpty_def)
  have g: "guessProviderFromHeaders huluHost (payload (scenarioF i)) = Inr None"
    by (simp add: guessHulu sn)
  have p: "extractProduct (Some textF) = Inr None"
    by (simp add: extractProduct_def noProductF)
  show ?thesis
    using processMsg_eval[OF g, unfolded sn, OF brandF filterF[THEN conjunct1] filterF[THEN conjunct2] amountF p]
    by (simp add: providerF extractDates_no_match[OF isoF longF] nextBillingOf_def candidateF_def)
qed

lemma wellFormed_F: "wellFormedHeaders (scenarioF i)"
  by (simp add: wellFormedHeaders_def headersOf_def isStr_def scenarioF_def huluHeaders_def)

lemma text_F: "snippetOrEmpty (scenarioF i) = textF"
  by (simp add: snippetOrEmpty_def scenarioF_def)

subsection \<open>A header whose value is a number, evaluated\<close>

lemma named_numberValued: "namedHeaders numberValued"
  by (simp add: namedHeaders_def headersOf_def isStr_def numberValued_def)

lemma guess_numberValued: "guessProviderFromHeaders utcHost (payload numberValued) = Inl TypeError"
  by (simp add: guessProviderFromHeaders_def fromValue_def numberValued_def toLowerCase_def char_defs)

lemma parse_numberValued: "parseSubscriptionsFromEmails utcHost [numberValued] = Inl TypeError"
  by (simp add: parseSubscriptionsFromEmails_def processMsg_def Let_def guess_numberValued)




lemma filter_numberValued: "candidateFilter utcHost (snippetOrEmpty numberValued)"
proof -
  have "snippetOrEmpty numberValued = textA" by (simp add: snippetOrEmpty_def numberValued_def)
  then show ?thesis
    unfolding candidateFilter_iff using brandA[OF netflix_utcHost] filterA by simp
qed


section \<open>The claims\<close>

subsection \<open>C1: scenario A\<close>

text \<open>
  Claim C1 as the specification states it: for the single-message batch with the text
  \<open>Your Netflix subscription of $15.99 renewed on 2024-03-05\<close> and no headers, and a
  brand list containing \<open>netflix\<close>, the result is one candidate with provider
  \<open>netflix\<close>, amount 15.99, currency \<open>USD\<close>, start date 2024-03-05 and next billing
  2024-04-04. This fails on a host whose zone changes its offset between the two dates:
  \<open>addDays\<close> adds 30 days on the local calendar, and on \<open>dstHost\<close> the candidate's
  next billing is 2024-04-03T23:00Z, an hour short of 2024-04-04 (on that host's own
  calendar the two dates read March 4 and April 3).
\<close>

theorem scenarioA_dst_counterexample:
  "js ''netflix'' \<in> set (subs dstHost)
   \<and> parseSubscriptionsFromEmails dstHost [scenarioA (js ''m1'')]
       = Inr [candidateA (js ''m1'') (ValidDate 1712185200000)]
   \<and> 1712185200000 = utcMidnight 2024 4 3 + 23 * 3600000
   \<and> ValidDate 1712185200000 \<noteq> ValidDate (utcMidnight 2024 4 4)"
proof -
  have e: "parseSubscriptionsFromEmails dstHost [scenarioA (js ''m1'')]
             = Inr [candidateA (js ''m1'') (ValidDate 1712185200000)]"
    using parseA[OF netflix_dstHost, of "js ''m1''"] by (simp only: addDays_dstHost)
  have a: "1712185200000 = utcMidnight 2024 4 3 + 23 * 3600000"
    by (simp add: date_defs)
  have n: "ValidDate 1712185200000 \<noteq> ValidDate (utcMidnight 2024 4 4)"
    by (simp add: date_defs)
  from netflix_dstHost e a n show ?thesis by (intro conjI)
qed

text \<open>
  Claim C1, amended: on a host whose zone has, at the local wall-clock time 30 days after
  2024-03-05T00:00Z, the offset it has at 2024-03-05T00:00Z (a host in UTC, or in any zone
  without a change of offset in between), and whose brand list contains \<open>netflix\<close>, the
  batch of scenario A gives exactly one candidate: provider \<open>netflix\<close>, amount 15.99,
  currency \<open>USD\<close>, start date 2024-03-05T00:00Z, next billing 2024-04-04T00:00Z (and
  product \<open>of\<close>, the words after \<open>subscription\<close>).
\<close>

theorem scenarioA_constant_offset:
  assumes "js ''netflix'' \<in> set (subs h)"
    and "tzaLocal h (utcMidnight 2024 3 5 + tzaUTC h (utcMidnight 2024 3 5) + 30 * msPerDay)
           = tzaUTC h (utcMidnight 2024 3 5)"
  shows "parseSubscriptionsFromEmails h [scenarioA i]
           = Inr [\<lparr>provider = js ''netflix'',
                   product = Some (js ''of''),
                   amount = Some (Num (1599 / 100)),
                   currency = Some (js ''USD''),
                   startDate = Some (ValidDate (utcMidnight 2024 3 5)),
                   nextBilling = Some (ValidDate (utcMidnight 2024 4 4)),
                   rawData = \<lparr>messageId = i, rawSnippet = Some textA\<rparr>\<rparr>]"
proof -
  have "addDays h (ValidDate (utcMidnight 2024 3 5)) 30 = ValidDate (utcMidnight 2024 4 4)"
    using assms(2) by (simp add: addDays_def LocalTime_def UTC_def date_defs)
  then show ?thesis
    using parseA[OF assms(1), of i] by (simp add: candidateA_def)
qed

theorem scenarioA_constant_offset_witness:
  "js ''netflix'' \<in> set (subs utcHost)
   \<and> tzaLocal utcHost (utcMidnight 2024 3 5 + tzaUTC utcHost (utcMidnight 2024 3 5) + 30 * msPerDay)
       = tzaUTC utcHost (utcMidnight 2024 3 5)
   \<and> parseSubscriptionsFromEmails utcHost [scenarioA (js ''m1'')]
       = Inr [\<lparr>provider = js ''netflix'',
               product = Some (js ''of''),
               amount = Some (Num (1599 / 100)),
               currency = Some (js ''USD''),
               startDate = Some (ValidDate (utcMidnight 2024 3 5)),
               nextBilling = Some (ValidDate (utcMidnight 2024 4 4)),
               rawData = \<lparr>messageId = js ''m1'', rawSnippet = Some textA\<rparr>\<rparr>]"
proof -
  have 1: "js ''netflix'' \<in> set (subs utcHost)" by (rule netflix_utcHost)
  have 2: "tzaLocal utcHost (utcMidnight 2024 3 5 + tzaUTC utcHost (utcMidnight 2024 3 5) + 30 * msPerDay)
             = tzaUTC utcHost (utcMidnight 2024 3 5)"
    by (simp add: utcHost_def)
  from scenarioA_constant_offset[OF 1 2, of "js ''m1''"] 1 2 show ?thesis by blast
qed

subsection \<open>C2: the candidate filter\<close>


subsection \<open>C3: deduplication\<close>

text \<open>
  Claim C3: write \<open>K\<close> for the key \<open>provider + "::" + (product ?? "unknown")\<close> of a
  candidate. Whenever the function returns, the keys of the output are pairwise distinct,
  hence so are its (provider, product) pairs; the output is the list of the per-message
  candidates at the positions where a key occurs for the first time, in the order of the
  input, so that a candidate whose key was met before is dropped; and every key of a
  per-message candidate is the key of a candidate of the output, so that candidates with
  different keys are all kept.
\<close>

theorem output_keeps_first_of_each_key:
  fixes K :: "ParsedSub \<Rightarrow> jsstr"
  defines "K \<equiv> \<lambda>c. provider c @ js ''::'' @ (case product c of None \<Rightarrow> js ''unknown'' | Some p \<Rightarrow> p)"
  assumes "parseSubscriptionsFromEmails h msgs = Inr out"
  shows "distinct (map K out)
   \<and> distinct (map (\<lambda>c. (provider c, product c)) out)
   \<and> out = map (\<lambda>i. perMessage h msgs ! i)
              (filter (\<lambda>i. \<forall>j < i. K (perMessage h msgs ! j) \<noteq> K (perMessage h msgs ! i))
                 [0..<length (perMessage h msgs)])
   \<and> K ` set out = K ` set (perMessage h msgs)"
proof -
  have K: "K = keyOf" unfolding K_def keyOf_explicit ..
  from assms(2) have o: "out = keepFirst {} (perMessage h msgs)" by (rule parse_Inr)
  have d: "distinct (map keyOf out)" unfolding o by (rule keepFirst_distinct)
  have i: "keyOf ` set out = keyOf ` set (perMessage h msgs)"
    unfolding o keepFirst_keys by simp
  show ?thesis
    unfolding K
    using d distinct_key_pairs[OF d] keepFirst_index[of "{}" "perMessage h msgs"] o i by simp
qed

theorem output_keeps_first_of_each_key_witness:
  "parseSubscriptionsFromEmails utcHost
      [scenarioA (js ''m1''), scenarioD (js ''m2'') None, scenarioA (js ''m3'')]
     = Inr [candidateA (js ''m1'') (ValidDate (utcMidnight 2024 4 4)),
            candidateD (js ''m2'') (js ''spotify'')]
   \<and> perMessage utcHost [scenarioA (js ''m1''), scenarioD (js ''m2'') None, scenarioA (js ''m3'')]
     = [candidateA (js ''m1'') (ValidDate (utcMidnight 2024 4 4)),
        candidateD (js ''m2'') (js ''spotify''),
        candidateA (js ''m3'') (ValidDate (utcMidnight 2024 4 4))]
   \<and> distinct [js ''netflix::of'', js ''spotify::Premium'']
   \<and> distinct (map (\<lambda>c. provider c @ js ''::''
                           @ (case product c of None \<Rightarrow> js ''unknown'' | Some p \<Rightarrow> p))
        [candidateA (js ''m1'') (ValidDate (utcMidnight 2024 4 4)),
         candidateD (js ''m2'') (js ''spotify'')])"
proof -
  have e: "parseSubscriptionsFromEmails utcHost
      [scenarioA (js ''m1''), scenarioD (js ''m2'') None, scenarioA (js ''m3'')]
     = Inr [candidateA (js ''m1'') (ValidDate (utcMidnight 2024 4 4)),
            candidateD (js ''m2'') (js ''spotify'')]"
    by (simp add: parseSubscriptionsFromEmails_def processA_utcHost processD_body keyA keyD js_def)
  have p: "perMessage utcHost [scenarioA (js ''m1''), scenarioD (js ''m2'') None, scenarioA (js ''m3'')]
     = [candidateA (js ''m1'') (ValidDate (utcMidnight 2024 4 4)),
        candidateD (js ''m2'') (js ''spotify''),
        candidateA (js ''m3'') (ValidDate (utcMidnight 2024 4 4))]"
    by (simp add: perMessage_def processA_utcHost processD_body)
  have d: "distinct [js ''netflix::of'', js ''spotify::Premium'']" by (simp add: js_def)
  note t = output_keeps_first_of_each_key[OF e]
  from t have k: "distinct (map (\<lambda>c. provider c @ js ''::''
                           @ (case product c of None \<Rightarrow> js ''unknown'' | Some p \<Rightarrow> p))
        [candidateA (js ''m1'') (ValidDate (utcMidnight 2024 4 4)),
         candidateD (js ''m2'') (js ''spotify'')])"
    by (rule conjunct1)
  from e p d k show ?thesis by (intro conjI)
qed

subsection \<open>C4: a date that does not parse\<close>

text \<open>
  Claim C4 says that a message that passes the filter and has only a malformed date text
  still gives a candidate, with start date and next billing both \<open>null\<close>. The program
  wraps \<open>new Date\<close> in \<open>try\<close> and falls through to \<open>null\<close> in the \<open>catch\<close>, but
  \<open>new Date\<close> does not throw on a text it cannot read: it returns an invalid date, which
  is an object and therefore truthy. For the text of scenario E the candidate is produced
  and both dates are invalid date objects, not \<open>null\<close>.
\<close>

theorem malformed_date_gives_invalid_dates:
  "parseSubscriptionsFromEmails utcHost [scenarioE (js ''m1'')]
     = Inr [\<lparr>provider = js ''netflix'',
              product = Some (js ''of''),
              amount = Some (Num (1599 / 100)),
              currency = Some (js ''USD''),
              startDate = Some InvalidDate,
              nextBilling = Some InvalidDate,
              rawData = \<lparr>messageId = js ''m1'', rawSnippet = Some textE\<rparr>\<rparr>]"
  by (simp add: parseSubscriptionsFromEmails_def processE)

subsection \<open>C5: amount and currency come together\<close>

text \<open>
  Claim C5: whenever the function returns, every candidate of the output has both an
  amount and a currency or neither; and when the money pattern finds no match in the text
  the candidate was made from, which is when that text has no digit, it has neither. (An
  amount that is present is a number, never NaN.)
\<close>

theorem amount_and_currency_together:
  "parseSubscriptionsFromEmails h msgs = Inr out \<Longrightarrow> c \<in> set out \<Longrightarrow>
     (amount c = None \<longleftrightarrow> currency c = None)
   \<and> (match (sourceText c) moneyRegex = None \<longrightarrow> amount c = None \<and> currency c = None)
   \<and> (\<not> list_ex isDigit (sourceText c) \<longrightarrow> amount c = None \<and> currency c = None)
   \<and> amount c \<noteq> Some NaN"
proof -
  assume "parseSubscriptionsFromEmails h msgs = Inr out" "c \<in> set out"
  then obtain m where m: "processMsg h m = Inr (Some c)" using parse_source by blast
  from processMsg_Some[OF m] obtain am where
    am: "extractAmount (snippetOrEmpty m) = Inr am" "amount c = ar_amount am"
      "currency c = ar_currency am"
    by blast
  have d: "\<not> list_ex isDigit (sourceText c) \<longrightarrow> match (sourceText c) moneyRegex = None"
    using money_match_iff_digit[of "sourceText c"] by (auto simp: list_ex_iff)
  from extractAmount_cases[OF am(1)] am(2,3) processMsg_sourceText[OF m] d
    extractAmount_number[OF am(1)]
  show ?thesis by auto
qed

theorem amount_and_currency_together_witness:
  "parseSubscriptionsFromEmails utcHost [scenarioA (js ''m1'')]
     = Inr [candidateA (js ''m1'') (ValidDate (utcMidnight 2024 4 4))]
   \<and> amount (candidateA (js ''m1'') (ValidDate (utcMidnight 2024 4 4))) \<noteq> None
   \<and> currency (candidateA (js ''m1'') (ValidDate (utcMidnight 2024 4 4))) \<noteq> None"
  using amount_and_currency_together[OF parseA_utcHost,
      of "candidateA (js ''m1'') (ValidDate (utcMidnight 2024 4 4))" "js ''m1''"]
    parseA_utcHost[of "js ''m1''"]
  by (simp add: candidateA_def)

subsection \<open>C6: the currency inferred\<close>

text \<open>
  Claim C6: for every text in which the money pattern finds a match, \<open>extractAmount\<close>
  returns an amount and the currency \<open>USD\<close> if the text contains a dollar sign, else
  \<open>EUR\<close> if it contains a euro sign, else \<open>NGN\<close> if it contains a naira sign, else
  \<open>USD\<close>; and whenever the function returns, a candidate of the output made from such a
  text has that currency. (The program decides so whether or not the text also has a
  three-letter code.)
\<close>

theorem currency_by_symbol_precedence:
  "(match text moneyRegex \<noteq> None \<longrightarrow>
      (\<exists>n. extractAmount text
             = Inr \<lparr>ar_amount = Some n,
                    ar_currency = Some (if DOLLAR \<in> set text then js ''USD''
                                        else if EURO \<in> set text then js ''EUR''
                                        else if NAIRA \<in> set text then js ''NGN''
                                        else js ''USD'')\<rparr>))
   \<and> (parseSubscriptionsFromEmails h msgs = Inr out \<and> c \<in> set out
        \<and> match (sourceText c) moneyRegex \<noteq> None \<longrightarrow>
      currency c = Some (if DOLLAR \<in> set (sourceText c) then js ''USD''
                         else if EURO \<in> set (sourceText c) then js ''EUR''
                         else if NAIRA \<in> set (sourceText c) then js ''NGN''
                         else js ''USD''))"
proof (intro conjI impI)
  assume nm: "match text moneyRegex \<noteq> None"
  obtain am where am: "extractAmount text = Inr am" using extractAmount_total by blast
  from extractAmount_cases[OF am] nm obtain n where
    "ar_amount am = Some n"
    "ar_currency am = Some (if DOLLAR \<in> set text then js ''USD''
                            else if EURO \<in> set text then js ''EUR''
                            else if NAIRA \<in> set text then js ''NGN'' else js ''USD'')"
    by auto
  then have "am = \<lparr>ar_amount = Some n,
                    ar_currency = Some (if DOLLAR \<in> set text then js ''USD''
                                        else if EURO \<in> set text then js ''EUR''
                                        else if NAIRA \<in> set text then js ''NGN''
                                        else js ''USD'')\<rparr>"
    by (cases am) simp
  with am show "\<exists>n. extractAmount text
             = Inr \<lparr>ar_amount = Some n,
                    ar_currency = Some (if DOLLAR \<in> set text then js ''USD''
                                        else if EURO \<in> set text then js ''EUR''
                                        else if NAIRA \<in> set text then js ''NGN''
                                        else js ''USD'')\<rparr>"
    by blast
next
  assume a: "parseSubscriptionsFromEmails h msgs = Inr out \<and> c \<in> set out
        \<and> match (sourceText c) moneyRegex \<noteq> None"
  then obtain m where m: "processMsg h m = Inr (Some c)" using parse_source by blast
  from processMsg_Some[OF m] obtain am where
    am: "extractAmount (snippetOrEmpty m) = Inr am" "amount c = ar_amount am"
      "currency c = ar_currency am"
    by blast
  from extractAmount_cases[OF am(1)] am(2,3) processMsg_sourceText[OF m] a
  show "currency c = Some (if DOLLAR \<in> set (sourceText c) then js ''USD''
                         else if EURO \<in> set (sourceText c) then js ''EUR''
                         else if NAIRA \<in> set (sourceText c) then js ''NGN''
                         else js ''USD'')"
    by auto
qed

theorem currency_by_symbol_precedence_witness:
  "match textA moneyRegex \<noteq> None
   \<and> DOLLAR \<in> set textA
   \<and> extractAmount textA
       = Inr \<lparr>ar_amount = Some (Num (1599 / 100)), ar_currency = Some (js ''USD'')\<rparr>
   \<and> parseSubscriptionsFromEmails utcHost [scenarioA (js ''m1'')]
       = Inr [candidateA (js ''m1'') (ValidDate (utcMidnight 2024 4 4))]
   \<and> currency (candidateA (js ''m1'') (ValidDate (utcMidnight 2024 4 4))) = Some (js ''USD'')"
proof -
  have m: "match textA moneyRegex \<noteq> None"
    using amountA by (auto simp: extractAmount_def split: option.splits)
  have d: "DOLLAR \<in> set textA" by (simp add: textA_def char_defs)
  note t = currency_by_symbol_precedence[of textA utcHost "[scenarioA (js ''m1'')]"
      "[candidateA (js ''m1'') (ValidDate (utcMidnight 2024 4 4))]"
      "candidateA (js ''m1'') (ValidDate (utcMidnight 2024 4 4))"]
  from t m d parseA_utcHost[of "js ''m1''"] amountA
  show ?thesis by (simp add: sourceTextA)
qed

subsection \<open>C7: the dates of a candidate\<close>

text \<open>
  Claim C7 says that for a text containing a substring that parses to a valid date (the
  ISO pattern tried first, then the long-form pattern) the candidate's start date is that
  date and its next billing is 30 days later. The text of scenario G contains
  \<open>Jan 5, 2024\<close>, which the long-form pattern matches and which parses to a valid date.
  But the ISO pattern is tried first and matches \<open>2024-13-45\<close>; \<open>new Date\<close> of it
  does not throw, it returns an invalid date, so the \<open>try\<close> block returns and the
  long-form pattern is never tried. The candidate's start date and next billing are both
  invalid dates, not 2024-01-05 and 2024-02-04. The cause is the one of claim C4: the
  \<open>catch\<close> that was to let the extractor go on after a date that does not parse is never
  entered.
\<close>

theorem first_date_text_invalid_shadows_valid_date:
  "parseSubscriptionsFromEmails utcHost [scenarioG (js ''m1'')]
     = Inr [\<lparr>provider = js ''netflix'',
              product = Some (js ''of''),
              amount = Some (Num (1599 / 100)),
              currency = Some (js ''USD''),
              startDate = Some InvalidDate,
              nextBilling = Some InvalidDate,
              rawData = \<lparr>messageId = js ''m1'', rawSnippet = Some textG\<rparr>\<rparr>]
   \<and> map_option matched (match textG isoRegex) = Some (js ''2024-13-45'')
   \<and> newDate utcHost (js ''2024-13-45'') = InvalidDate
   \<and> map_option matched (match textG longDateRegex) = Some (js ''Jan 5, 2024'')
   \<and> newDate utcHost (js ''Jan 5, 2024'') = ValidDate (utcMidnight 2024 1 5)"
proof -
  have "parseSubscriptionsFromEmails utcHost [scenarioG (js ''m1'')]
     = Inr [\<lparr>provider = js ''netflix'',
              product = Some (js ''of''),
              amount = Some (Num (1599 / 100)),
              currency = Some (js ''USD''),
              startDate = Some InvalidDate,
              nextBilling = Some InvalidDate,
              rawData = \<lparr>messageId = js ''m1'', rawSnippet = Some textG\<rparr>\<rparr>]"
    by (simp add: parseSubscriptionsFromEmails_def processG)
  then show ?thesis using isoG newDateG[of utcHost] longG newDateD by (intro conjI)
qed

subsection \<open>C8: the provider\<close>

text \<open>
  Claim C8: when a message gives a candidate, its provider is decided in two tiers: the
  first member of the enumeration, in its order, contained in the lower-cased value of the
  first header whose lower-cased name is \<open>from\<close>; if there is none, the first member
  contained in the lower-cased text; if there is none, \<open>unknown\<close>.
\<close>

theorem provider_in_two_tiers:
  "processMsg h m = Inr (Some c) \<Longrightarrow> provider c = twoTierProvider h m"
proof -
  assume "processMsg h m = Inr (Some c)"
  from processMsg_Some[OF this] obtain pfh where
    "guessProviderFromHeaders h (payload m) = Inr pfh"
    "provider c = resolveProvider pfh (toLowerCase h (snippetOrEmpty m))" by blast
  then show ?thesis using guess_headerProvider resolve_twoTier by metis
qed

theorem provider_in_two_tiers_witness:
  "processMsg utcHost (scenarioD (js ''m1'') (Some stripeHeaders))
     = Inr (Some (candidateD (js ''m1'') (js ''stripe'')))
   \<and> twoTierProvider utcHost (scenarioD (js ''m1'') (Some stripeHeaders)) = js ''stripe''
   \<and> processMsg utcHost (scenarioD (js ''m2'') None)
     = Inr (Some (candidateD (js ''m2'') (js ''spotify'')))
   \<and> twoTierProvider utcHost (scenarioD (js ''m2'') None) = js ''spotify''"
proof -
  have 1: "processMsg utcHost (scenarioD (js ''m1'') (Some stripeHeaders))
             = Inr (Some (candidateD (js ''m1'') (js ''stripe'')))"
    by (rule processD_header)
  have 2: "processMsg utcHost (scenarioD (js ''m2'') None)
             = Inr (Some (candidateD (js ''m2'') (js ''spotify'')))"
    by (rule processD_body)
  from provider_in_two_tiers[OF 1] provider_in_two_tiers[OF 2] 1 2
  show ?thesis by (simp add: candidateD_def)
qed

subsection \<open>C9: no error on a well-formed batch\<close>

text \<open>
  Claim C9 as the specification states it: on a batch in which every header of every
  payload is a record carrying a string name, the function never raises an error. This
  fails: the value of the header named \<open>From\<close> is guarded against \<open>null\<close> and
  \<open>undefined\<close> only, so on the message below, whose only header is
  \<open>{ name: "From", value: 42 }\<close> and whose text passes the filter, the call of
  \<open>toLowerCase\<close> on the number throws.
\<close>

theorem number_valued_header_counterexample:
  "list_all namedHeaders [numberValued]
   \<and> candidateFilter utcHost (snippetOrEmpty numberValued)
   \<and> parseSubscriptionsFromEmails utcHost [numberValued] = Inl TypeError"
proof -
  have "list_all namedHeaders [numberValued]" using named_numberValued by simp
  then show ?thesis using filter_numberValued parse_numberValued by (intro conjI)
qed

text \<open>
  Claim C9, amended: on a batch of messages (the text of each a string or missing, the
  headers of each payload a list of records or missing) in which every header carries a
  string name and a value that is a string or is missing, the function returns, whatever
  the texts are, and its result is the list of first occurrences among the per-message
  candidates. Every message of the batch whose text fails the filter (no brand name, no
  keyword or no currency-like token) is dropped without an error; every message whose text
  passes it gives a candidate, in which amount and currency are absent when the text has
  no digit, start date and next billing are \<open>null\<close> when neither date pattern matches,
  the product is absent when the product pattern does not match, and the provider is
  \<open>unknown\<close> when neither the \<open>From\<close> header nor the text names a member of the
  enumeration.
\<close>

theorem well_formed_batch_never_throws:
  assumes "list_all wellFormedHeaders msgs"
  shows "parseSubscriptionsFromEmails h msgs = Inr (keepFirst {} (perMessage h msgs))
   \<and> (\<forall>m \<in> set msgs.
        (\<not> candidateFilter h (snippetOrEmpty m) \<longrightarrow> processMsg h m = Inr None)
      \<and> (candidateFilter h (snippetOrEmpty m) \<longrightarrow>
          (\<exists>c. processMsg h m = Inr (Some c)
             \<and> (\<not> list_ex isDigit (snippetOrEmpty m) \<longrightarrow> amount c = None \<and> currency c = None)
             \<and> (match (snippetOrEmpty m) isoRegex = None
                  \<and> match (snippetOrEmpty m) longDateRegex = None
                \<longrightarrow> startDate c = None \<and> nextBilling c = None)
             \<and> (match (snippetOrEmpty m) productRegex = None \<longrightarrow> product c = None)
             \<and> (headerProvider h m = None \<and> bodyProvider h m = None
                \<longrightarrow> provider c = js ''unknown''))))"
proof (intro conjI ballI impI)
  show "parseSubscriptionsFromEmails h msgs = Inr (keepFirst {} (perMessage h msgs))"
    using assms by (rule parse_wellformed)
next
  fix m assume "m \<in> set msgs" and r: "\<not> candidateFilter h (snippetOrEmpty m)"
  with assms have "wellFormedHeaders m" by (simp add: list_all_iff)
  from processMsg_rejects[OF this r] show "processMsg h m = Inr None" .
next
  fix m assume "m \<in> set msgs" and a: "candidateFilter h (snippetOrEmpty m)"
  with assms have w: "wellFormedHeaders m" by (simp add: list_all_iff)
  from processMsg_passes[OF w a] obtain c where c: "processMsg h m = Inr (Some c)" by blast
  from processMsg_Some[OF c] obtain pfh am pr where
    g: "guessProviderFromHeaders h (payload m) = Inr pfh"
    and am: "extractAmount (snippetOrEmpty m) = Inr am"
    and pr: "extractProduct (snippet m) = Inr pr"
    and f: "provider c = resolveProvider pfh (toLowerCase h (snippetOrEmpty m))"
      "product c = pr" "amount c = ar_amount am" "currency c = ar_currency am"
      "startDate c = dr_start (extractDates h (snippetOrEmpty m))"
      "nextBilling c = nextBillingOf h (extractDates h (snippetOrEmpty m))"
    by blast
  have 1: "\<not> list_ex isDigit (snippetOrEmpty m) \<longrightarrow> amount c = None \<and> currency c = None"
    using extractAmount_cases[OF am] money_match_iff_digit[of "snippetOrEmpty m"] f(3,4)
    by (auto simp: list_ex_iff)
  have 2: "match (snippetOrEmpty m) isoRegex = None \<and> match (snippetOrEmpty m) longDateRegex = None
             \<longrightarrow> startDate c = None \<and> nextBilling c = None"
    using f(5,6) by (auto simp: extractDates_no_match nextBillingOf_def)
  have 3: "match (snippetOrEmpty m) productRegex = None \<longrightarrow> product c = None"
    using extractProduct_no_match[of m] pr f(2) by auto
  have pc: "provider c = twoTierProvider h m"
    using f(1) guess_headerProvider[OF g] resolve_twoTier[of h m] by simp
  have 4: "headerProvider h m = None \<and> bodyProvider h m = None \<longrightarrow> provider c = js ''unknown''"
    unfolding pc twoTierProvider_def by simp
  from c 1 2 3 4
  show "\<exists>c. processMsg h m = Inr (Some c)
             \<and> (\<not> list_ex isDigit (snippetOrEmpty m) \<longrightarrow> amount c = None \<and> currency c = None)
             \<and> (match (snippetOrEmpty m) isoRegex = None
                  \<and> match (snippetOrEmpty m) longDateRegex = None
                \<longrightarrow> startDate c = None \<and> nextBilling c = None)
             \<and> (match (snippetOrEmpty m) productRegex = None \<longrightarrow> product c = None)
             \<and> (headerProvider h m = None \<and> bodyProvider h m = None
                \<longrightarrow> provider c = js ''unknown'')"
    by (intro exI[of _ c] conjI)
qed

theorem well_formed_batch_never_throws_witness:
  "list_all wellFormedHeaders [scenarioF (js ''m1''), scenarioB (js ''m2'')]
   \<and> parseSubscriptionsFromEmails huluHost [scenarioF (js ''m1''), scenarioB (js ''m2'')]
       = Inr [candidateF (js ''m1'')]
   \<and> \<not> candidateFilter huluHost (snippetOrEmpty (scenarioB (js ''m2'')))
   \<and> processMsg huluHost (scenarioB (js ''m2'')) = Inr None
   \<and> candidateFilter huluHost (snippetOrEmpty (scenarioF (js ''m1'')))
   \<and> processMsg huluHost (scenarioF (js ''m1'')) = Inr (Some (candidateF (js ''m1'')))
   \<and> candidateF (js ''m1'')
       = \<lparr>provider = js ''unknown'', product = None, amount = None, currency = None,
          startDate = None, nextBilling = None,
          rawData = \<lparr>messageId = js ''m1'', rawSnippet = Some textF\<rparr>\<rparr>"
proof -
  have n: "list_all wellFormedHeaders [scenarioF (js ''m1''), scenarioB (js ''m2'')]"
    by (simp add: wellFormed_F named_B)
  have r: "\<not> candidateFilter huluHost (snippetOrEmpty (scenarioB (js ''m2'')))"
    unfolding text_B candidateFilter_def using no_token_B by simp
  have a: "candidateFilter huluHost (snippetOrEmpty (scenarioF (js ''m1'')))"
    unfolding text_F candidateFilter_iff using brandF filterF by simp
  note t = well_formed_batch_never_throws[OF n, of huluHost]
  have b: "processMsg huluHost (scenarioB (js ''m2'')) = Inr None"
    by (rule processMsg_rejects[OF named_B r])
  have f: "processMsg huluHost (scenarioF (js ''m1'')) = Inr (Some (candidateF (js ''m1'')))"
    by (rule processF)
  have p: "perMessage huluHost [scenarioF (js ''m1''), scenarioB (js ''m2'')] = [candidateF (js ''m1'')]"
    by (simp add: perMessage_def f b)
  have k: "keepFirst {} [candidateF (js ''m1'')] = [candidateF (js ''m1'')]" by simp
  from t have e: "parseSubscriptionsFromEmails huluHost [scenarioF (js ''m1''), scenarioB (js ''m2'')]
       = Inr [candidateF (js ''m1'')]"
    unfolding p k by (rule conjunct1)
  have c: "candidateF (js ''m1'')
       = \<lparr>provider = js ''unknown'', product = None, amount = None, currency = None,
          startDate = None, nextBilling = None,
          rawData = \<lparr>messageId = js ''m1'', rawSnippet = Some textF\<rparr>\<rparr>"
    by (simp add: candidateF_def)
  from n e r b a f c show ?thesis by (intro conjI)
qed

subsection \<open>C10: the output is no longer than the input\<close>

text \<open>
  Claim C10: whenever the function returns, each message has contributed at most one
  candidate and the second loop has added none, so the output is at most as long as the
  batch.
\<close>

theorem output_no_longer_than_input:
  "parseSubscriptionsFromEmails h msgs = Inr out \<Longrightarrow>
     length (perMessage h msgs) \<le> length msgs
   \<and> length out \<le> length (perMessage h msgs)
   \<and> length out \<le> length msgs"
  using parse_Inr[of h msgs out] keepFirst_length[of "{}" "perMessage h msgs"]
    perMessage_length[of h msgs]
  by auto

theorem output_no_longer_than_input_witness:
  "parseSubscriptionsFromEmails utcHost [scenarioA (js ''m1''), scenarioA (js ''m2'')]
     = Inr [candidateA (js ''m1'') (ValidDate (utcMidnight 2024 4 4))]
   \<and> length [candidateA (js ''m1'') (ValidDate (utcMidnight 2024 4 4))]
       \<le> length [scenarioA (js ''m1''), scenarioA (js ''m2'')]"
proof -
  have e: "parseSubscriptionsFromEmails utcHost [scenarioA (js ''m1''), scenarioA (js ''m2'')]
             = Inr [candidateA (js ''m1'') (ValidDate (utcMidnight 2024 4 4))]"
    using parseAA[OF netflix_utcHost] by (simp add: addDays_utcHost)
  from output_no_longer_than_input[OF e] e show ?thesis by blast
qed

end
